theory Spec2Isabelle
  imports Complex_Main "HOL-Library.AList"
begin

section \<open>Python values used by the miners\<close>

text \<open>
  The repository holds two frequent-itemset miners (\<open>algorithms/apriori.py\<close>,
  \<open>algorithms/eclat.py\<close>) and one rule generator, textually the same in both files.

  Modelling conventions.
  \<^item> An item is a value of a linearly ordered type (Python strings are one).
  \<^item> A \<open>set\<close> or \<open>frozenset\<close> of items is an \<open>'a set\<close>. Python leaves the iteration
    order of a set open; wherever the source iterates a set of items
    (\<open>for item in t\<close>, \<open>list(itemset)\<close>, \<open>combinations(union, k - 1)\<close>) the model
    iterates \<open>sorted_list_of_set\<close>. A Python set of frozensets that is iterated
    (\<open>candidates\<close>) is a duplicate-free list.
  \<^item> A \<open>dict\<close> is an association list in insertion order; \<open>d[k] = v\<close> is
    \<open>AList.update k v d\<close> (replace in place, or append), \<open>d.get(k)\<close> is \<open>map_of d k\<close>.
  \<^item> A \<open>float\<close> is an exact rational: rounding is not modelled.
  \<^item> An exception is a value \<open>Inl e\<close> of the result type \<open>error + 'a\<close>.
\<close>

datatype error = ZeroDivisionError | KeyError | IndexError

type_synonym ('k, 'v) dict = "('k \<times> 'v) list"

text \<open>\<open>a / b\<close> on numbers: raises on a zero divisor.\<close>

definition py_truediv :: "rat \<Rightarrow> rat \<Rightarrow> error + rat" where
  "py_truediv a b = (if b = 0 then Inl ZeroDivisionError else Inr (a / b))"

text \<open>\<open>int(x)\<close> on a float truncates towards zero.\<close>

definition py_int :: "rat \<Rightarrow> int" where
  "py_int x = (if 0 \<le> x then \<lfloor>x\<rfloor> else \<lceil>x\<rceil>)"

text \<open>\<open>d[k]\<close> as an expression: raises on a missing key.\<close>

definition dict_getitem :: "('k, 'v) dict \<Rightarrow> 'k \<Rightarrow> error + 'v" where
  "dict_getitem d k = (case map_of d k of None \<Rightarrow> Inl KeyError | Some v \<Rightarrow> Inr v)"

text \<open>\<open>d.update(e)\<close>: every entry of \<open>e\<close> is stored into \<open>d\<close>, in the order of \<open>e\<close>.\<close>

definition dict_update :: "('k, 'v) dict \<Rightarrow> ('k, 'v) dict \<Rightarrow> ('k, 'v) dict" where
  "dict_update d e = fold (\<lambda>(k, v). AList.update k v) e d"

text \<open>A comprehension whose element expression may raise: the first exception wins.\<close>

fun map_res :: "('a \<Rightarrow> error + 'b) \<Rightarrow> 'a list \<Rightarrow> error + 'b list" where
  "map_res f [] = Inr []"
| "map_res f (x # xs) =
     (case f x of
        Inl e \<Rightarrow> Inl e
      | Inr y \<Rightarrow> (case map_res f xs of Inl e \<Rightarrow> Inl e | Inr ys \<Rightarrow> Inr (y # ys)))"

text \<open>A \<open>for\<close> loop over a list whose body updates a state and may raise.\<close>

fun fold_res :: "('a \<Rightarrow> 's \<Rightarrow> error + 's) \<Rightarrow> 'a list \<Rightarrow> 's \<Rightarrow> error + 's" where
  "fold_res f [] s = Inr s"
| "fold_res f (x # xs) s = (case f x s of Inl e \<Rightarrow> Inl e | Inr s' \<Rightarrow> fold_res f xs s')"

text \<open>\<open>itertools.combinations(xs, r)\<close>, in the order itertools yields them.\<close>

fun combinations :: "'a list \<Rightarrow> nat \<Rightarrow> 'a list list" where
  "combinations xs 0 = [[]]"
| "combinations [] (Suc r) = []"
| "combinations (x # xs) (Suc r) = map (Cons x) (combinations xs r) @ combinations xs (Suc r)"

text \<open>
  The index pairs of \<open>for i in range(len(xs)): for j in range(i + 1, len(xs))\<close>,
  as the pairs \<open>(xs[i], xs[j])\<close>.
\<close>

fun pairs :: "'a list \<Rightarrow> ('a \<times> 'a) list" where
  "pairs [] = []"
| "pairs (x # xs) = map (Pair x) xs @ pairs xs"

section \<open>The support threshold\<close>

text \<open>\<open>min_support_count = max(1, int(min_support * n + 1e-9))\<close>\<close>

definition min_support_count :: "rat \<Rightarrow> nat \<Rightarrow> int" where
  "min_support_count min_support n = max 1 (py_int (min_support * of_nat n + 1 / 1000000000))"

section \<open>The breadth-first miner\<close>

text \<open>
  \<open>item_counts = {}\<close>, then for every transaction and every item of it
  \<open>item_counts[item] = item_counts.get(item, 0) + 1\<close>.
\<close>

definition count_item :: "'a \<Rightarrow> ('a, nat) dict \<Rightarrow> ('a, nat) dict" where
  "count_item item d = AList.update item ((case map_of d item of None \<Rightarrow> 0 | Some c \<Rightarrow> c) + 1) d"

definition item_counts :: "('a::linorder) set list \<Rightarrow> ('a, nat) dict" where
  "item_counts transactions =
     fold (\<lambda>t d. fold count_item (sorted_list_of_set t) d) transactions []"

text \<open>The frequent singletons, \<open>{frozenset([i]): c for i, c in ... if c >= min_support_count}\<close>.\<close>

definition frequent_1 :: "int \<Rightarrow> ('a, nat) dict \<Rightarrow> ('a set, nat) dict" where
  "frequent_1 msc ic = map (\<lambda>(i, c). ({i}, c)) (filter (\<lambda>(i, c). msc \<le> int c) ic)"

text \<open>
  The inner check of the join step: every \<open>k - 1\<close> element subset of \<open>union\<close> is a key
  of \<open>Lk\<close>. The \<open>break\<close> only stops the scan early.
\<close>

definition all_subsets_frequent :: "('a::linorder) set \<Rightarrow> nat \<Rightarrow> ('a set, nat) dict \<Rightarrow> bool" where
  "all_subsets_frequent u k Lk =
     list_all (\<lambda>sub. map_of Lk (set sub) \<noteq> None)
       (combinations (sorted_list_of_set u) (k - 1))"

text \<open>
  Candidate generation: one pass over the index pairs \<open>i < j\<close> of \<open>prev_itemsets\<close>;
  \<open>candidates.add(union)\<close> keeps the set free of duplicates.
\<close>

definition add_candidate ::
  "nat \<Rightarrow> ('a::linorder set, nat) dict \<Rightarrow> 'a set \<times> 'a set \<Rightarrow> 'a set list \<Rightarrow> 'a set list" where
  "add_candidate k Lk p candidates =
     (let u = fst p \<union> snd p
      in if card u = k \<and> all_subsets_frequent u k Lk
         then List.insert u candidates else candidates)"

definition gen_candidates :: "('a::linorder set, nat) dict \<Rightarrow> nat \<Rightarrow> 'a set list" where
  "gen_candidates Lk k = fold (add_candidate k Lk) (pairs (map fst Lk)) []"

text \<open>
  Support counting: \<open>counts = {c: 0 for c in candidates}\<close>, then for every transaction
  and every candidate contained in it \<open>counts[c] += 1\<close>.
\<close>

definition count_candidate ::
  "'a set \<Rightarrow> 'a set \<Rightarrow> ('a set, nat) dict \<Rightarrow> error + ('a set, nat) dict" where
  "count_candidate t c counts =
     (if c \<subseteq> t
      then (case dict_getitem counts c of
              Inl e \<Rightarrow> Inl e
            | Inr v \<Rightarrow> Inr (AList.update c (v + 1) counts))
      else Inr counts)"

definition count_support :: "'a set list \<Rightarrow> 'a set list \<Rightarrow> error + ('a set, nat) dict" where
  "count_support transactions candidates =
     fold_res (\<lambda>t counts. fold_res (count_candidate t) candidates counts)
       transactions (map (\<lambda>c. (c, 0)) candidates)"

text \<open>\<open>{c: cnt for c, cnt in counts.items() if cnt >= min_support_count}\<close>\<close>

definition filter_support :: "int \<Rightarrow> ('k, nat) dict \<Rightarrow> ('k, nat) dict" where
  "filter_support msc counts = filter (\<lambda>(c, cnt). msc \<le> int cnt) counts"

section \<open>Specification: the support of an itemset\<close>

text \<open>The number of transactions that contain the itemset \<open>I\<close>.\<close>

definition support_count :: "'a set list \<Rightarrow> 'a set \<Rightarrow> nat" where
  "support_count transactions I = length (filter (\<lambda>t. I \<subseteq> t) transactions)"

subsection \<open>Support counting computes the support\<close>

lemma update_map_fun:
  "distinct cs \<Longrightarrow> c \<in> set cs \<Longrightarrow>
   AList.update c v (map (\<lambda>x. (x, f x)) cs) = map (\<lambda>x. (x, (f(c := v)) x)) cs"
  by (induction cs) auto

lemma map_of_map_fun: "map_of (map (\<lambda>x. (x, f x)) cs) c = (if c \<in> set cs then Some (f c) else None)"
  by (induction cs) auto

lemma count_candidate_map:
  assumes "distinct cands" "c \<in> set cands"
  shows "count_candidate t c (map (\<lambda>x. (x, f x)) cands) =
         Inr (map (\<lambda>x. (x, (if x = c \<and> c \<subseteq> t then f x + 1 else f x))) cands)"
proof (cases "c \<subseteq> t")
  case True
  have "(f(c := f c + 1)) = (\<lambda>x. if x = c \<and> c \<subseteq> t then f x + 1 else f x)"
    using True by auto
  then show ?thesis
    using True assms
    by (simp add: count_candidate_def dict_getitem_def map_of_map_fun update_map_fun)
next
  case False
  then show ?thesis by (simp add: count_candidate_def)
qed

lemma fold_count_candidate:
  "distinct cands \<Longrightarrow> set cs \<subseteq> set cands \<Longrightarrow> distinct cs \<Longrightarrow>
   fold_res (count_candidate t) cs (map (\<lambda>x. (x, f x)) cands) =
   Inr (map (\<lambda>x. (x, f x + (if x \<in> set cs \<and> x \<subseteq> t then 1 else 0))) cands)"
proof (induction cs arbitrary: f)
  case Nil
  then show ?case by simp
next
  case (Cons c cs)
  let ?g = "\<lambda>x. if x = c \<and> c \<subseteq> t then f x + 1 else f x"
  have step: "count_candidate t c (map (\<lambda>x. (x, f x)) cands) = Inr (map (\<lambda>x. (x, ?g x)) cands)"
    using Cons.prems by (simp add: count_candidate_map)
  have ih: "fold_res (count_candidate t) cs (map (\<lambda>x. (x, ?g x)) cands) =
        Inr (map (\<lambda>x. (x, ?g x + (if x \<in> set cs \<and> x \<subseteq> t then 1 else 0))) cands)"
    using Cons.prems by (intro Cons.IH) auto
  have "c \<notin> set cs" using Cons.prems by simp
  then have eq: "(\<lambda>x. (x, ?g x + (if x \<in> set cs \<and> x \<subseteq> t then 1 else 0))) =
        (\<lambda>x. (x, f x + (if x \<in> set (c # cs) \<and> x \<subseteq> t then 1 else 0)))"
    by (intro ext) auto
  have "fold_res (count_candidate t) (c # cs) (map (\<lambda>x. (x, f x)) cands) =
        fold_res (count_candidate t) cs (map (\<lambda>x. (x, ?g x)) cands)"
    by (simp only: fold_res.simps step sum.case)
  also note ih
  also note eq
  finally show ?case .
qed

lemma count_support_eq:
  assumes "distinct candidates"
  shows "count_support transactions candidates =
         Inr (map (\<lambda>c. (c, support_count transactions c)) candidates)"
proof -
  have "fold_res (\<lambda>t counts. fold_res (count_candidate t) candidates counts) ts
          (map (\<lambda>x. (x, f x)) candidates) =
        Inr (map (\<lambda>x. (x, f x + support_count ts x)) candidates)" for ts f
  proof (induction ts arbitrary: f)
    case Nil
    then show ?case by (simp add: support_count_def)
  next
    case (Cons t ts)
    show ?case
      using assms
      by (simp add: fold_count_candidate Cons.IH support_count_def)
  qed
  from this [of transactions "\<lambda>_. 0"] show ?thesis
    by (simp add: count_support_def)
qed

lemma distinct_fold_add_candidate:
  "distinct cs \<Longrightarrow> distinct (fold (add_candidate k Lk) ps cs)"
  by (induction ps arbitrary: cs) (auto simp: add_candidate_def Let_def)

lemma distinct_gen_candidates: "distinct (gen_candidates Lk k)"
  by (simp add: gen_candidates_def distinct_fold_add_candidate)

subsection \<open>The candidates of one level\<close>

lemma set_add_candidate:
  "set (add_candidate k Lk p cs) =
   set cs \<union> (if card (fst p \<union> snd p) = k \<and> all_subsets_frequent (fst p \<union> snd p) k Lk
             then {fst p \<union> snd p} else {})"
  by (simp add: add_candidate_def Let_def)

lemma set_fold_add_candidate:
  "set (fold (add_candidate k Lk) ps cs) =
   set cs \<union> (\<lambda>p. fst p \<union> snd p) `
      {p \<in> set ps. card (fst p \<union> snd p) = k \<and> all_subsets_frequent (fst p \<union> snd p) k Lk}"
proof (induction ps arbitrary: cs)
  case Nil
  then show ?case by simp
next
  case (Cons q ps)
  let ?Q = "\<lambda>p. card (fst p \<union> snd p) = k \<and> all_subsets_frequent (fst p \<union> snd p) k Lk"
  have split: "{p \<in> set (q # ps). ?Q p} = (if ?Q q then {q} else {}) \<union> {p \<in> set ps. ?Q p}"
    by auto
  have "set (fold (add_candidate k Lk) (q # ps) cs) =
        set (add_candidate k Lk q cs) \<union> (\<lambda>p. fst p \<union> snd p) ` {p \<in> set ps. ?Q p}"
    using Cons.IH [of "add_candidate k Lk q cs"] by simp
  also have "\<dots> = set cs \<union> (\<lambda>p. fst p \<union> snd p) ` {p \<in> set (q # ps). ?Q p}"
    unfolding split set_add_candidate by (cases "?Q q") auto
  finally show ?case .
qed

lemma set_gen_candidates:
  "set (gen_candidates Lk k) =
   (\<lambda>p. fst p \<union> snd p) `
      {p \<in> set (pairs (map fst Lk)). card (fst p \<union> snd p) = k
          \<and> all_subsets_frequent (fst p \<union> snd p) k Lk}"
  by (simp add: gen_candidates_def set_fold_add_candidate)

lemma set_pairs_subset: "(a, b) \<in> set (pairs xs) \<Longrightarrow> a \<in> set xs \<and> b \<in> set xs"
  by (induction xs) auto

subsection \<open>The level loop\<close>

text \<open>
  A rank that decreases with every iteration of \<open>while Lk\<close>, from any state: once the
  keys of \<open>Lk\<close> all have \<open>k - 1\<close> items, the next level has keys of \<open>k\<close> items drawn
  from the same finite pool of items, so \<open>k\<close> cannot pass the size of the pool.
\<close>

definition level_ok :: "('a set, nat) dict \<Rightarrow> nat \<Rightarrow> bool" where
  "level_ok Lk k \<longleftrightarrow> 2 \<le> k \<and> (\<forall>c \<in> fst ` set Lk. card c = k - 1)"

definition loop_rank :: "('a set, nat) dict \<Rightarrow> nat \<Rightarrow> nat \<times> nat" where
  "loop_rank Lk k =
     (if Lk = [] then (0, 0)
      else if level_ok Lk k then (0, card (\<Union> (fst ` set Lk)) + 2 - k)
      else if 1 \<le> k then (1, 0) else (2, 0))"

lemma gen_candidates_card: "c \<in> set (gen_candidates Lk k) \<Longrightarrow> card c = k"
  unfolding set_gen_candidates by blast

lemma gen_candidates_subset:
  assumes "c \<in> set (gen_candidates Lk k)"
  shows "c \<subseteq> \<Union> (fst ` set Lk)"
proof -
  from assms obtain p where p: "p \<in> set (pairs (map fst Lk))" and c: "c = fst p \<union> snd p"
    unfolding set_gen_candidates by blast
  obtain a b where ab: "p = (a, b)" by (cases p)
  from set_pairs_subset [of a b "map fst Lk"] p ab
  have "a \<in> fst ` set Lk" "b \<in> fst ` set Lk" by simp_all
  with c ab show ?thesis by auto
qed


lemma loop_rank_empty: "loop_rank [] k = (0, 0)"
  by (simp add: loop_rank_def)

lemma loop_rank_ok:
  "Lk \<noteq> [] \<Longrightarrow> level_ok Lk k \<Longrightarrow> loop_rank Lk k = (0, card (\<Union> (fst ` set Lk)) + 2 - k)"
  by (simp add: loop_rank_def)

lemma loop_rank_bad:
  "Lk \<noteq> [] \<Longrightarrow> \<not> level_ok Lk k \<Longrightarrow> loop_rank Lk k = (if 1 \<le> k then (1, 0) else (2, 0))"
  by (simp add: loop_rank_def)

lemma level_ok_finite:
  assumes "level_ok Lk k"
  shows "finite (\<Union> (fst ` set Lk))"
proof (rule finite_Union)
  show "finite (fst ` set Lk)" by simp
next
  fix c assume "c \<in> fst ` set Lk"
  with assms have "card c = k - 1" and "2 \<le> k" unfolding level_ok_def by blast+
  then have "0 < card c" by simp
  then show "finite c" by (rule card_ge_0_finite)
qed

lemma level_ok_next:
  assumes "fst ` set Lk' \<subseteq> set (gen_candidates Lk k)" and "1 \<le> k"
  shows "level_ok Lk' (k + 1)"
  unfolding level_ok_def
proof (intro conjI ballI)
  show "2 \<le> k + 1" using assms(2) by simp
next
  fix c assume "c \<in> fst ` set Lk'"
  with assms(1) have "c \<in> set (gen_candidates Lk k)" by blast
  then show "card c = k + 1 - 1" by (simp add: gen_candidates_card)
qed

lemma loop_rank_decreases:
  assumes ne: "Lk \<noteq> []" and sub: "fst ` set Lk' \<subseteq> set (gen_candidates Lk k)"
  shows "(loop_rank Lk' (k + 1), loop_rank Lk k) \<in> less_than <*lex*> less_than"
proof (cases "level_ok Lk k")
  case ok: True
  let ?U = "\<Union> (fst ` set Lk)"
  let ?U' = "\<Union> (fst ` set Lk')"
  have k2: "2 \<le> k" using ok by (simp add: level_ok_def)
  have fin: "finite ?U" using ok by (rule level_ok_finite)
  from ne obtain c0 where c0: "c0 \<in> fst ` set Lk" by (cases Lk) auto
  with ok have "card c0 = k - 1" unfolding level_ok_def by blast
  moreover have "c0 \<subseteq> ?U" using c0 by blast
  then have "card c0 \<le> card ?U" using fin by (rule card_mono [rotated])
  ultimately have low: "k - 1 \<le> card ?U" by simp
  have rank: "loop_rank Lk k = (0, card ?U + 2 - k)"
    using ne ok by (rule loop_rank_ok)
  show ?thesis
  proof (cases "Lk' = []")
    case True
    have "0 < card ?U + 2 - k" using low k2 by linarith
    then show ?thesis unfolding rank True loop_rank_empty by simp
  next
    case False
    have k1: "1 \<le> k" using k2 by simp
    have ok': "level_ok Lk' (k + 1)" using sub k1 by (rule level_ok_next)
    have sub': "?U' \<subseteq> ?U"
    proof (rule Union_least)
      fix c assume "c \<in> fst ` set Lk'"
      with sub have "c \<in> set (gen_candidates Lk k)" by (rule subsetD)
      then show "c \<subseteq> ?U" by (rule gen_candidates_subset)
    qed
    from False obtain c1 where c1: "c1 \<in> fst ` set Lk'" by (cases Lk') auto
    have fin': "finite ?U'" using sub' fin by (rule finite_subset)
    have "c1 \<subseteq> ?U'" using c1 by blast
    then have "card c1 \<le> card ?U'" using fin' by (rule card_mono [rotated])
    moreover have "c1 \<in> set (gen_candidates Lk k)" using sub c1 by (rule subsetD)
    then have "card c1 = k" by (rule gen_candidates_card)
    moreover have "card ?U' \<le> card ?U" using fin sub' by (rule card_mono)
    ultimately have "card ?U' + 2 - (k + 1) < card ?U + 2 - k" by linarith
    then show ?thesis unfolding rank loop_rank_ok [OF False ok'] by simp
  qed
next
  case bad: False
  have rank: "loop_rank Lk k = (if 1 \<le> k then (1, 0) else (2, 0))"
    using ne bad by (rule loop_rank_bad)
  show ?thesis
  proof (cases "Lk' = []")
    case True
    show ?thesis unfolding rank True loop_rank_empty by simp
  next
    case ne': False
    show ?thesis
    proof (cases "1 \<le> k")
      case True
      have ok': "level_ok Lk' (k + 1)" using sub True by (rule level_ok_next)
      show ?thesis unfolding rank loop_rank_ok [OF ne' ok'] using True by simp
    next
      case False
      then have "\<not> level_ok Lk' (k + 1)" by (simp add: level_ok_def)
      from loop_rank_bad [OF ne' this] show ?thesis unfolding rank using False by simp
    qed
  qed
qed

lemma filter_support_keys: "fst ` set (filter_support msc counts) \<subseteq> fst ` set counts"
  unfolding filter_support_def by (rule image_mono) (rule filter_is_subset)

lemma count_support_gen:
  "count_support transactions (gen_candidates Lk k) =
   Inr (map (\<lambda>c. (c, support_count transactions c)) (gen_candidates Lk k))"
  by (rule count_support_eq) (rule distinct_gen_candidates)

lemma count_support_keys:
  assumes "count_support transactions (gen_candidates Lk k) = Inr counts"
  shows "fst ` set counts = set (gen_candidates Lk k)"
proof -
  have "counts = map (\<lambda>c. (c, support_count transactions c)) (gen_candidates Lk k)"
    using assms unfolding count_support_gen by simp
  then show ?thesis by (simp add: image_image)
qed

text \<open>
  The loop \<open>while Lk: ...\<close> with the state \<open>(Lk, L, k)\<close>; one iteration generates the
  candidates, counts them, filters them into the next \<open>Lk\<close>, merges that into \<open>L\<close> and
  increments \<open>k\<close>.
\<close>

function apriori_loop ::
  "('a::linorder) set list \<Rightarrow> int \<Rightarrow> ('a set, nat) dict \<Rightarrow> ('a set, nat) dict \<Rightarrow> nat
   \<Rightarrow> error + ('a set, nat) dict" where
  "apriori_loop transactions msc Lk L k =
     (if Lk = [] then Inr L
      else case count_support transactions (gen_candidates Lk k) of
             Inl e \<Rightarrow> Inl e
           | Inr counts \<Rightarrow>
               (let Lk' = filter_support msc counts
                in apriori_loop transactions msc Lk' (dict_update L Lk') (k + 1)))"
  by pat_completeness auto
termination
proof (relation "inv_image (less_than <*lex*> less_than) (\<lambda>(ts, msc, Lk, L, k). loop_rank Lk k)")
  show "wf (inv_image (less_than <*lex*> less_than)
          (\<lambda>(ts :: 'a set list, msc :: int, Lk :: ('a set, nat) dict,
              L :: ('a set, nat) dict, k). loop_rank Lk k))"
    by (intro wf_inv_image wf_lex_prod wf_less_than)
next
  fix transactions :: "'a set list" and msc :: int and Lk L :: "('a set, nat) dict"
    and k :: nat and counts Lk'
  assume ne: "Lk \<noteq> []"
    and cs: "count_support transactions (gen_candidates Lk k) = Inr counts"
    and lk: "Lk' = filter_support msc counts"
  have "fst ` set Lk' \<subseteq> set (gen_candidates Lk k)"
    using filter_support_keys [of msc counts] unfolding lk count_support_keys [OF cs] .
  from loop_rank_decreases [OF ne this]
  show "((transactions, msc, Lk', dict_update L Lk', k + 1), transactions, msc, Lk, L, k)
        \<in> inv_image (less_than <*lex*> less_than) (\<lambda>(ts, msc, Lk, L, k). loop_rank Lk k)"
    by simp
qed

declare apriori_loop.simps [simp del]

text \<open>\<open>{itemset: count / n for itemset, count in L.items()}\<close>, one entry at a time.\<close>

definition normalise_count :: "nat \<Rightarrow> 'k \<times> nat \<Rightarrow> error + 'k \<times> rat" where
  "normalise_count n p =
     (case py_truediv (of_nat (snd p)) (of_nat n) of
        Inl e \<Rightarrow> Inl e
      | Inr s \<Rightarrow> Inr (fst p, s))"

definition apriori :: "('a::linorder) set list \<Rightarrow> rat \<Rightarrow> error + ('a set, rat) dict" where
  "apriori transactions min_support =
     (let n = length transactions
      in if n = 0 then Inr []
         else
           let msc = min_support_count min_support n;
               Lk = frequent_1 msc (item_counts transactions);
               L = dict_update [] Lk
           in case apriori_loop transactions msc Lk L 2 of
                Inl e \<Rightarrow> Inl e
              | Inr L' \<Rightarrow> map_res (normalise_count n) L')"

section \<open>The depth-first miner\<close>

text \<open>
  The vertical index: for every transaction id and every item of the transaction
  \<open>tidsets.setdefault(frozenset([item]), set()).add(tid)\<close>.
\<close>

definition add_tid :: "nat \<Rightarrow> 'a \<Rightarrow> ('a set, nat set) dict \<Rightarrow> ('a set, nat set) dict" where
  "add_tid tid item tidsets =
     AList.update {item}
       (insert tid (case map_of tidsets {item} of None \<Rightarrow> {} | Some tids \<Rightarrow> tids)) tidsets"

definition build_tidsets :: "('a::linorder) set list \<Rightarrow> ('a set, nat set) dict" where
  "build_tidsets transactions =
     fold (\<lambda>(tid, t) tidsets. fold (add_tid tid) (sorted_list_of_set t) tidsets)
       (enumerate 0 transactions) []"

text \<open>\<open>{itemset: tids for itemset, tids in tidsets.items() if len(tids) >= min_support_count}\<close>\<close>

definition frequent_singletons :: "int \<Rightarrow> ('k, nat set) dict \<Rightarrow> ('k, nat set) dict" where
  "frequent_singletons msc tidsets = filter (\<lambda>(itemset, tids). msc \<le> int (card tids)) tidsets"

text \<open>
  \<open>sorted(frequent_singletons.items(), key=lambda x: list(x[0])[0])\<close>: the keys are
  computed first (\<open>list(s)[0]\<close> raises on an empty set), then the entries are sorted
  stably by key.
\<close>

definition first_item :: "('a::linorder) set \<Rightarrow> error + 'a" where
  "first_item s = (case sorted_list_of_set s of [] \<Rightarrow> Inl IndexError | y # _ \<Rightarrow> Inr y)"

definition with_sort_key :: "('a::linorder) set \<times> 'v \<Rightarrow> error + 'a \<times> ('a set \<times> 'v)" where
  "with_sort_key x = (case first_item (fst x) of Inl e \<Rightarrow> Inl e | Inr key \<Rightarrow> Inr (key, x))"

definition sorted_by_item :: "(('a::linorder) set, 'v) dict \<Rightarrow> error + ('a set \<times> 'v) list" where
  "sorted_by_item items =
     (case map_res with_sort_key items of
        Inl e \<Rightarrow> Inl e
      | Inr keyed \<Rightarrow> Inr (map snd (sort_key fst keyed)))"

text \<open>
  The recursive search. The loop \<open>for i in range(len(items))\<close> visits \<open>items[i]\<close> with
  the rest \<open>items[i + 1:]\<close>; the dictionary \<open>results\<close> that the closure mutates is
  passed in and returned.
\<close>

fun dfs ::
  "int \<Rightarrow> 'a set \<Rightarrow> nat set \<Rightarrow> ('a set \<times> nat set) list \<Rightarrow> ('a set, nat set) dict
   \<Rightarrow> ('a set, nat set) dict" where
  "dfs msc pre pre_tids [] results = results"
| "dfs msc pre pre_tids ((itemset_i, tids_i) # items) results =
     (let new_itemset = (if pre \<noteq> {} then pre \<union> itemset_i else itemset_i);
          new_tids = (if pre \<noteq> {} then pre_tids \<inter> tids_i else tids_i);
          results' =
            (if msc \<le> int (card new_tids)
             then dfs msc new_itemset new_tids items (AList.update new_itemset new_tids results)
             else results)
      in dfs msc pre pre_tids items results')"

text \<open>\<open>{itemset: len(tids) / n for itemset, tids in results.items()}\<close>, one entry at a time.\<close>

definition normalise_tids :: "nat \<Rightarrow> 'k \<times> nat set \<Rightarrow> error + 'k \<times> rat" where
  "normalise_tids n p =
     (case py_truediv (of_nat (card (snd p))) (of_nat n) of
        Inl e \<Rightarrow> Inl e
      | Inr s \<Rightarrow> Inr (fst p, s))"

definition eclat :: "('a::linorder) set list \<Rightarrow> rat \<Rightarrow> error + ('a set, rat) dict" where
  "eclat transactions min_support =
     (let n = length transactions
      in if n = 0 then Inr []
         else
           let msc = min_support_count min_support n;
               tidsets = build_tidsets transactions
           in case sorted_by_item (frequent_singletons msc tidsets) of
                Inl e \<Rightarrow> Inl e
              | Inr singleton_items \<Rightarrow>
                  map_res (normalise_tids n) (dfs msc {} {0..<n} singleton_items []))"

section \<open>The rule generator\<close>

record 'a rule =
  antecedent :: "'a set"
  consequent :: "'a set"
  support :: rat
  confidence :: rat
  lift :: rat

text \<open>
  The splits that the two inner loops visit for one itemset, in order:
  for \<open>r\<close> in \<open>range(1, len(items))\<close>, for every \<open>r\<close>-combination of \<open>list(itemset)\<close>, the
  pair of \<open>frozenset(antecedent_tuple)\<close> and \<open>itemset - antecedent\<close>.
\<close>

definition splits :: "('a::linorder) set \<Rightarrow> ('a set \<times> 'a set) list" where
  "splits itemset =
     (let items = sorted_list_of_set itemset
      in concat (map (\<lambda>r. map (\<lambda>antecedent_tuple.
                                   (set antecedent_tuple, itemset - set antecedent_tuple))
                              (combinations items r))
                     [1..<length items]))"

text \<open>
  The body of the inner loop for one split: \<open>Inr None\<close> is a \<open>continue\<close>,
  \<open>Inr (Some r)\<close> is \<open>rules.append(r)\<close>, \<open>Inl e\<close> is an exception.
\<close>

definition rule_of ::
  "('a set, rat) dict \<Rightarrow> rat \<Rightarrow> rat \<Rightarrow> 'a set \<times> 'a set \<Rightarrow> error + 'a rule option" where
  "rule_of freq_itemsets min_confidence supp_XY split =
     (if snd split = {} then Inr None
      else case map_of freq_itemsets (fst split) of
        None \<Rightarrow> Inr None
      | Some supp_X \<Rightarrow>
         (case map_of freq_itemsets (snd split) of
            None \<Rightarrow> Inr None
          | Some supp_Y \<Rightarrow>
             if supp_X = 0 then Inr None
             else case py_truediv supp_XY supp_X of
               Inl e \<Rightarrow> Inl e
             | Inr conf \<Rightarrow>
                if conf < min_confidence then Inr None
                else case (if supp_X * supp_Y > 0 then py_truediv supp_XY (supp_X * supp_Y)
                           else Inr 0) of
                  Inl e \<Rightarrow> Inl e
                | Inr lft \<Rightarrow>
                   Inr (Some \<lparr>antecedent = fst split, consequent = snd split,
                              support = supp_XY, confidence = conf, lift = lft\<rparr>)))"

definition rule_step ::
  "('a set, rat) dict \<Rightarrow> rat \<Rightarrow> rat \<Rightarrow> 'a set \<times> 'a set \<Rightarrow> 'a rule list \<Rightarrow> error + 'a rule list" where
  "rule_step freq_itemsets min_confidence supp_XY split rules =
     (case rule_of freq_itemsets min_confidence supp_XY split of
        Inl e \<Rightarrow> Inl e
      | Inr None \<Rightarrow> Inr rules
      | Inr (Some r) \<Rightarrow> Inr (rules @ [r]))"

text \<open>The body of the outer loop, for one entry of \<open>freq_itemsets.items()\<close>.\<close>

definition itemset_step ::
  "(('a::linorder) set, rat) dict \<Rightarrow> rat \<Rightarrow> 'a set \<times> rat \<Rightarrow> 'a rule list \<Rightarrow> error + 'a rule list" where
  "itemset_step freq_itemsets min_confidence entry rules =
     (if card (fst entry) < 2 then Inr rules
      else fold_res (rule_step freq_itemsets min_confidence (snd entry)) (splits (fst entry)) rules)"

definition generate_association_rules ::
  "(('a::linorder) set, rat) dict \<Rightarrow> rat \<Rightarrow> error + 'a rule list" where
  "generate_association_rules freq_itemsets min_confidence =
     fold_res (itemset_step freq_itemsets min_confidence) freq_itemsets []"

section \<open>Loops that never raise\<close>

lemma fold_res_Inr:
  assumes "\<And>x s. x \<in> set xs \<Longrightarrow> f x s = Inr (g x s)"
  shows "fold_res f xs s = Inr (fold g xs s)"
  using assms by (induction xs arbitrary: s) simp_all

lemma map_res_Inr:
  assumes "\<And>x. x \<in> set xs \<Longrightarrow> f x = Inr (g x)"
  shows "map_res f xs = Inr (map g xs)"
  using assms by (induction xs) simp_all

section \<open>Combinations\<close>

lemma length_combinations: "length (combinations xs r) = length xs choose r"
  by (induction xs r rule: combinations.induct) simp_all

lemma combinations_elem:
  "c \<in> set (combinations xs r) \<Longrightarrow> set c \<subseteq> set xs \<and> length c = r \<and> (distinct xs \<longrightarrow> distinct c)"
proof (induction xs r arbitrary: c rule: combinations.induct)
  case (1 xs)
  then show ?case by simp
next
  case (2 r)
  then show ?case by simp
next
  case (3 x xs r)
  from "3.prems" consider (a) c' where "c = x # c'" "c' \<in> set (combinations xs r)"
    | (b) "c \<in> set (combinations xs (Suc r))"
    by auto
  then show ?case
  proof cases
    case a
    from "3.IH"(1) [OF a(2)] a(1) show ?thesis by auto
  next
    case b
    from "3.IH"(2) [OF b] show ?thesis by auto
  qed
qed

lemma combinations_complete:
  "distinct xs \<Longrightarrow> A \<subseteq> set xs \<Longrightarrow> card A = r \<Longrightarrow> \<exists>c \<in> set (combinations xs r). set c = A"
proof (induction xs r arbitrary: A rule: combinations.induct)
  case (1 xs)
  have "finite A" using "1.prems"(2) by (rule finite_subset) simp
  then have "A = {}" using "1.prems"(3) by simp
  then show ?case by simp
next
  case (2 r)
  then show ?case by simp
next
  case (3 x xs r)
  have fin: "finite A" using "3.prems"(2) by (rule finite_subset) simp
  have dist: "distinct xs" and notin: "x \<notin> set xs" using "3.prems"(1) by simp_all
  show ?case
  proof (cases "x \<in> A")
    case True
    have "A - {x} \<subseteq> set xs" using "3.prems"(2) by auto
    moreover have "card (A - {x}) = r" using True fin "3.prems"(3) by simp
    ultimately obtain c where c: "c \<in> set (combinations xs r)" "set c = A - {x}"
      using "3.IH"(1) [OF dist] by blast
    have "x # c \<in> set (combinations (x # xs) (Suc r))" using c(1) by simp
    moreover have "set (x # c) = A" using c(2) True by auto
    ultimately show ?thesis by blast
  next
    case False
    then have "A \<subseteq> set xs" using "3.prems"(2) by auto
    then obtain c where c: "c \<in> set (combinations xs (Suc r))" "set c = A"
      using "3.IH"(2) [OF dist _ "3.prems"(3)] by blast
    have "c \<in> set (combinations (x # xs) (Suc r))" using c(1) by simp
    with c(2) show ?thesis by blast
  qed
qed

lemma set_combinations:
  assumes "distinct xs"
  shows "set ` set (combinations xs r) = {A. A \<subseteq> set xs \<and> card A = r}"
proof (rule set_eqI, rule iffI)
  fix A assume "A \<in> set ` set (combinations xs r)"
  then obtain c where c: "c \<in> set (combinations xs r)" "A = set c" by blast
  from combinations_elem [OF c(1)] assms
  have "set c \<subseteq> set xs" "length c = r" "distinct c" by simp_all
  then show "A \<in> {A. A \<subseteq> set xs \<and> card A = r}"
    using c(2) by (simp add: distinct_card)
next
  fix A assume "A \<in> {A. A \<subseteq> set xs \<and> card A = r}"
  then have "A \<subseteq> set xs" "card A = r" by simp_all
  from combinations_complete [OF assms this] show "A \<in> set ` set (combinations xs r)"
    by blast
qed

section \<open>Specification: frequent itemsets\<close>

text \<open>
  An itemset is frequent for an absolute threshold when it is not empty and at least
  that many transactions contain it.
\<close>

definition frequent :: "'a set list \<Rightarrow> int \<Rightarrow> 'a set \<Rightarrow> bool" where
  "frequent transactions msc I \<longleftrightarrow> I \<noteq> {} \<and> msc \<le> int (support_count transactions I)"

lemma support_count_Nil [simp]: "support_count [] I = 0"
  by (simp add: support_count_def)

lemma support_count_Cons:
  "support_count (t # ts) I = (if I \<subseteq> t then 1 else 0) + support_count ts I"
  by (simp add: support_count_def)

lemma support_count_le_length: "support_count ts I \<le> length ts"
  by (simp add: support_count_def)

text \<open>Anti-monotonicity: a subset is contained in at least as many transactions.\<close>

lemma support_count_antimono:
  assumes "A \<subseteq> B"
  shows "support_count ts B \<le> support_count ts A"
proof (induction ts)
  case Nil
  show ?case by simp
next
  case (Cons t ts)
  have "B \<subseteq> t \<Longrightarrow> A \<subseteq> t" using assms by (rule subset_trans)
  then show ?case using Cons.IH by (auto simp: support_count_Cons)
qed

lemma support_count_pos_subset:
  assumes "0 < support_count ts I"
  obtains t where "t \<in> set ts" "I \<subseteq> t"
proof -
  have "filter (\<lambda>t. I \<subseteq> t) ts \<noteq> []" using assms by (simp add: support_count_def)
  then obtain t where "t \<in> set (filter (\<lambda>t. I \<subseteq> t) ts)" by (cases "filter (\<lambda>t. I \<subseteq> t) ts") auto
  then have "t \<in> set ts" "I \<subseteq> t" by simp_all
  then show thesis by (rule that)
qed

lemma frequent_finite:
  assumes "frequent ts msc I" and "1 \<le> msc" and "\<forall>t \<in> set ts. finite t"
  shows "finite I"
proof -
  have "0 < support_count ts I" using assms(1,2) by (simp add: frequent_def)
  then obtain t where "t \<in> set ts" "I \<subseteq> t" by (rule support_count_pos_subset)
  then show ?thesis using assms(3) finite_subset by blast
qed

lemma frequent_subset:
  assumes "frequent ts msc B" and "A \<subseteq> B" and "A \<noteq> {}"
  shows "frequent ts msc A"
proof -
  have "msc \<le> int (support_count ts B)" using assms(1) by (simp add: frequent_def)
  also have "\<dots> \<le> int (support_count ts A)"
    using support_count_antimono [OF assms(2), of ts] by simp
  finally show ?thesis using assms(3) by (simp add: frequent_def)
qed

subsection \<open>Index pairs\<close>

lemma pairs_distinct:
  "distinct xs \<Longrightarrow> (a, b) \<in> set (pairs xs) \<Longrightarrow> a \<noteq> b"
proof (induction xs)
  case Nil
  then show ?case by simp
next
  case (Cons x xs)
  from Cons.prems(2) consider "a = x" "b \<in> set xs" | "(a, b) \<in> set (pairs xs)" by auto
  then show ?case
  proof cases
    case 1
    then show ?thesis using Cons.prems(1) by auto
  next
    case 2
    then show ?thesis using Cons.IH Cons.prems(1) by simp
  qed
qed

lemma pairs_complete:
  "a \<in> set xs \<Longrightarrow> b \<in> set xs \<Longrightarrow> a \<noteq> b \<Longrightarrow>
   (a, b) \<in> set (pairs xs) \<or> (b, a) \<in> set (pairs xs)"
proof (induction xs)
  case Nil
  then show ?case by simp
next
  case (Cons x xs)
  show ?case
  proof (cases "a = x")
    case True
    then have "b \<in> set xs" using Cons.prems by auto
    then show ?thesis using True by simp
  next
    case ax: False
    show ?thesis
    proof (cases "b = x")
      case True
      then have "a \<in> set xs" using Cons.prems by auto
      then show ?thesis using True by simp
    next
      case False
      then have "a \<in> set xs" "b \<in> set xs" using ax Cons.prems by auto
      from Cons.IH [OF this Cons.prems(3)] show ?thesis by auto
    qed
  qed
qed

subsection \<open>The prune check\<close>

lemma all_subsets_frequent_iff:
  assumes "finite u"
  shows "all_subsets_frequent u k Lk \<longleftrightarrow>
         (\<forall>S. S \<subseteq> u \<and> card S = k - 1 \<longrightarrow> S \<in> fst ` set Lk)"
proof -
  let ?xs = "sorted_list_of_set u"
  have xs: "distinct ?xs" "set ?xs = u" using assms by simp_all
  have "all_subsets_frequent u k Lk \<longleftrightarrow>
        (\<forall>S \<in> set ` set (combinations ?xs (k - 1)). S \<in> fst ` set Lk)"
    unfolding all_subsets_frequent_def list_all_iff
    by (simp add: map_of_eq_None_iff)
  also have "\<dots> \<longleftrightarrow> (\<forall>S. S \<subseteq> u \<and> card S = k - 1 \<longrightarrow> S \<in> fst ` set Lk)"
    unfolding set_combinations [OF xs(1)] xs(2) by blast
  finally show ?thesis .
qed

lemma in_gen_candidates:
  assumes "distinct (map fst Lk)" and "1 \<le> k"
  shows "U \<in> set (gen_candidates Lk k) \<longleftrightarrow>
         (\<exists>A B. A \<in> fst ` set Lk \<and> B \<in> fst ` set Lk \<and> A \<noteq> B \<and> U = A \<union> B
                \<and> card U = k \<and> (\<forall>S. S \<subseteq> U \<and> card S = k - 1 \<longrightarrow> S \<in> fst ` set Lk))"
proof
  assume "U \<in> set (gen_candidates Lk k)"
  then obtain p where p: "p \<in> set (pairs (map fst Lk))" "U = fst p \<union> snd p"
    "card U = k" "all_subsets_frequent U k Lk"
    unfolding set_gen_candidates by blast
  obtain A B where ab: "p = (A, B)" by (cases p)
  have fin: "finite U" using p(3) assms(2) card_ge_0_finite by force
  have "A \<in> fst ` set Lk" "B \<in> fst ` set Lk"
    using set_pairs_subset [of A B "map fst Lk"] p(1) ab by simp_all
  moreover have "A \<noteq> B" using pairs_distinct [OF assms(1), of A B] p(1) ab by simp
  moreover have "U = A \<union> B" using p(2) ab by simp
  moreover have "\<forall>S. S \<subseteq> U \<and> card S = k - 1 \<longrightarrow> S \<in> fst ` set Lk"
    using p(4) unfolding all_subsets_frequent_iff [OF fin] .
  ultimately show "\<exists>A B. A \<in> fst ` set Lk \<and> B \<in> fst ` set Lk \<and> A \<noteq> B \<and> U = A \<union> B
                \<and> card U = k \<and> (\<forall>S. S \<subseteq> U \<and> card S = k - 1 \<longrightarrow> S \<in> fst ` set Lk)"
    using p(3) by blast
next
  assume "\<exists>A B. A \<in> fst ` set Lk \<and> B \<in> fst ` set Lk \<and> A \<noteq> B \<and> U = A \<union> B
                \<and> card U = k \<and> (\<forall>S. S \<subseteq> U \<and> card S = k - 1 \<longrightarrow> S \<in> fst ` set Lk)"
  then obtain A B where ab: "A \<in> fst ` set Lk" "B \<in> fst ` set Lk" "A \<noteq> B" "U = A \<union> B"
    "card U = k" and pr: "\<forall>S. S \<subseteq> U \<and> card S = k - 1 \<longrightarrow> S \<in> fst ` set Lk"
    by blast
  have fin: "finite U" using ab(5) assms(2) card_ge_0_finite by force
  have asf: "all_subsets_frequent U k Lk"
    unfolding all_subsets_frequent_iff [OF fin] by (rule pr)
  have "A \<in> set (map fst Lk)" "B \<in> set (map fst Lk)" using ab(1,2) by simp_all
  from pairs_complete [OF this ab(3)]
  consider "(A, B) \<in> set (pairs (map fst Lk))" | "(B, A) \<in> set (pairs (map fst Lk))" by blast
  then show "U \<in> set (gen_candidates Lk k)"
  proof cases
    case 1
    have "fst (A, B) \<union> snd (A, B) = U" using ab(4) by simp
    then show ?thesis unfolding set_gen_candidates using 1 ab(5) asf by force
  next
    case 2
    have "fst (B, A) \<union> snd (B, A) = U" using ab(4) by auto
    then show ?thesis unfolding set_gen_candidates using 2 ab(5) asf by force
  qed
qed

section \<open>Properties of the breadth-first miner\<close>

subsection \<open>Dictionaries\<close>

lemma map_of_filter_distinct:
  "distinct (map fst d) \<Longrightarrow>
   map_of (filter P d) k = (case map_of d k of None \<Rightarrow> None | Some v \<Rightarrow> if P (k, v) then Some v else None)"
proof (induction d)
  case Nil
  show ?case by simp
next
  case (Cons p d)
  obtain k' v' where p: "p = (k', v')" by (cases p)
  have notin: "k' \<notin> fst ` set d" and dist: "distinct (map fst d)"
    using Cons.prems p by simp_all
  have none: "map_of d k' = None" using notin by (simp add: map_of_eq_None_iff)
  show ?case
  proof (cases "k = k'")
    case True
    have "map_of (filter P d) k' = None"
      using notin by (auto simp: map_of_eq_None_iff)
    then show ?thesis using True p by simp
  next
    case False
    then show ?thesis using Cons.IH [OF dist] p by simp
  qed
qed

lemma distinct_filter_keys: "distinct (map fst d) \<Longrightarrow> distinct (map fst (filter P d))"
  by (rule distinct_map_filter)

lemma dict_update_Cons: "dict_update d ((k, v) # e) = dict_update (AList.update k v d) e"
  by (simp add: dict_update_def)

lemma dict_update_Nil: "dict_update d [] = d"
  by (simp add: dict_update_def)

lemma distinct_dict_update:
  "distinct (map fst d) \<Longrightarrow> distinct (map fst (dict_update d e))"
proof (induction e arbitrary: d)
  case Nil
  then show ?case by (simp add: dict_update_Nil)
next
  case (Cons p e)
  obtain k v where p: "p = (k, v)" by (cases p)
  have "distinct (map fst (AList.update k v d))" using Cons.prems by (rule distinct_update)
  from Cons.IH [OF this] show ?case unfolding p dict_update_Cons .
qed

lemma map_of_dict_update:
  "distinct (map fst e) \<Longrightarrow>
   map_of (dict_update d e) k = (case map_of e k of None \<Rightarrow> map_of d k | Some v \<Rightarrow> Some v)"
proof (induction e arbitrary: d)
  case Nil
  show ?case by (simp add: dict_update_Nil)
next
  case (Cons p e)
  obtain k' v' where p: "p = (k', v')" by (cases p)
  have notin: "k' \<notin> fst ` set e" and dist: "distinct (map fst e)"
    using Cons.prems p by simp_all
  have none: "map_of e k' = None" using notin by (simp add: map_of_eq_None_iff)
  have "map_of (dict_update d (p # e)) k =
        (case map_of e k of None \<Rightarrow> map_of (AList.update k' v' d) k | Some v \<Rightarrow> Some v)"
    unfolding p dict_update_Cons by (rule Cons.IH [OF dist])
  also have "\<dots> = (case map_of (p # e) k of None \<Rightarrow> map_of d k | Some v \<Rightarrow> Some v)"
    using none by (cases "k = k'") (simp_all add: p update_conv' split: option.splits)
  finally show ?case .
qed

subsection \<open>Counting the single items\<close>

lemma map_of_count_item:
  "map_of (count_item x d) y =
   (if y = x then Some ((case map_of d x of None \<Rightarrow> 0 | Some c \<Rightarrow> c) + 1) else map_of d y)"
  by (simp add: count_item_def update_conv')

lemma distinct_count_item: "distinct (map fst d) \<Longrightarrow> distinct (map fst (count_item x d))"
  unfolding count_item_def by (rule distinct_update)

lemma distinct_fold_count_item:
  "distinct (map fst d) \<Longrightarrow> distinct (map fst (fold count_item xs d))"
  by (induction xs arbitrary: d) (simp_all add: distinct_count_item)

lemma map_of_fold_count_item:
  "distinct xs \<Longrightarrow>
   map_of (fold count_item xs d) y =
   (if y \<in> set xs then Some ((case map_of d y of None \<Rightarrow> 0 | Some c \<Rightarrow> c) + 1) else map_of d y)"
proof (induction xs arbitrary: d)
  case Nil
  show ?case by simp
next
  case (Cons x xs)
  have dist: "distinct xs" and notin: "x \<notin> set xs" using Cons.prems by simp_all
  show ?case
    using notin by (simp add: Cons.IH [OF dist] map_of_count_item)
qed

definition count_transaction :: "('a::linorder) set \<Rightarrow> ('a, nat) dict \<Rightarrow> ('a, nat) dict" where
  "count_transaction t d = fold count_item (sorted_list_of_set t) d"

lemma map_of_count_transaction:
  "finite t \<Longrightarrow>
   map_of (count_transaction t d) y =
   (if y \<in> t then Some ((case map_of d y of None \<Rightarrow> 0 | Some c \<Rightarrow> c) + 1) else map_of d y)"
  unfolding count_transaction_def by (simp add: map_of_fold_count_item)

lemma distinct_count_transaction:
  "distinct (map fst d) \<Longrightarrow> distinct (map fst (count_transaction t d))"
  unfolding count_transaction_def by (rule distinct_fold_count_item)

lemma item_counts_fold: "item_counts ts = fold count_transaction ts []"
  unfolding item_counts_def count_transaction_def ..

lemma map_of_fold_count_transaction:
  "\<forall>t \<in> set ts. finite t \<Longrightarrow>
   map_of (fold count_transaction ts d) y =
   (if support_count ts {y} = 0 then map_of d y
    else Some ((case map_of d y of None \<Rightarrow> 0 | Some c \<Rightarrow> c) + support_count ts {y}))"
proof (induction ts arbitrary: d)
  case Nil
  show ?case by simp
next
  case (Cons t ts)
  have fin: "finite t" and fins: "\<forall>t \<in> set ts. finite t" using Cons.prems by simp_all
  show ?case
    by (simp add: Cons.IH [OF fins] map_of_count_transaction [OF fin] support_count_Cons)
qed

lemma distinct_fold_count_transaction:
  "distinct (map fst d) \<Longrightarrow> distinct (map fst (fold count_transaction ts d))"
  by (induction ts arbitrary: d) (simp_all add: distinct_count_transaction)

lemma map_of_item_counts:
  assumes "\<forall>t \<in> set ts. finite t"
  shows "map_of (item_counts ts) y =
         (if support_count ts {y} = 0 then None else Some (support_count ts {y}))"
  unfolding item_counts_fold map_of_fold_count_transaction [OF assms] by simp

lemma distinct_item_counts: "distinct (map fst (item_counts ts))"
  unfolding item_counts_fold by (rule distinct_fold_count_transaction) simp

subsection \<open>The levels of the breadth-first search\<close>

text \<open>
  \<open>level_is\<close>: the dictionary holds exactly the frequent itemsets of \<open>j\<close> items, with their
  counts. \<open>found_upto\<close>: the dictionary holds exactly those of 1 to \<open>j\<close> items.
\<close>

definition level_is :: "'a set list \<Rightarrow> int \<Rightarrow> ('a set, nat) dict \<Rightarrow> nat \<Rightarrow> bool" where
  "level_is ts msc Lk j \<longleftrightarrow>
     distinct (map fst Lk) \<and>
     (\<forall>I. map_of Lk I =
          (if card I = j \<and> frequent ts msc I then Some (support_count ts I) else None))"

definition found_upto :: "'a set list \<Rightarrow> int \<Rightarrow> ('a set, nat) dict \<Rightarrow> nat \<Rightarrow> bool" where
  "found_upto ts msc L j \<longleftrightarrow>
     distinct (map fst L) \<and>
     (\<forall>I. map_of L I =
          (if 1 \<le> card I \<and> card I \<le> j \<and> frequent ts msc I
           then Some (support_count ts I) else None))"

lemma level_is_key:
  assumes "level_is ts msc Lk j"
  shows "I \<in> fst ` set Lk \<longleftrightarrow> card I = j \<and> frequent ts msc I"
proof -
  have "I \<in> fst ` set Lk \<longleftrightarrow> map_of Lk I \<noteq> None" by (simp add: map_of_eq_None_iff)
  also have "\<dots> \<longleftrightarrow> card I = j \<and> frequent ts msc I"
  proof -
    have "map_of Lk I =
          (if card I = j \<and> frequent ts msc I then Some (support_count ts I) else None)"
      using assms unfolding level_is_def by blast
    then show ?thesis by (simp split: if_splits)
  qed
  finally show ?thesis .
qed

subsubsection \<open>The first level\<close>

lemma map_of_singleton_keys: "map_of (map (\<lambda>(i, c). ({i}, c)) d) {x} = map_of d x"
proof (induction d)
  case Nil
  show ?case by simp
next
  case (Cons p d)
  obtain i c where p: "p = (i, c)" by (cases p)
  show ?case using Cons.IH by (simp add: p)
qed

lemma map_of_singleton_keys_None:
  assumes "\<And>x. I \<noteq> {x}"
  shows "map_of (map (\<lambda>(i, c). ({i}, c)) d) I = None"
proof (induction d)
  case Nil
  show ?case by simp
next
  case (Cons p d)
  obtain i c where p: "p = (i, c)" by (cases p)
  have "I \<noteq> {i}" by (rule assms)
  then show ?case using Cons.IH by (simp add: p)
qed

lemma distinct_singleton_keys:
  "distinct (map fst d) \<Longrightarrow> distinct (map fst (map (\<lambda>(i, c). ({i}, c)) d))"
proof -
  assume d: "distinct (map fst d)"
  have eq: "map fst (map (\<lambda>(i, c). ({i}, c)) d) = map (\<lambda>i. {i}) (map fst d)"
    by (induction d) (simp_all add: case_prod_beta)
  have "inj_on (\<lambda>i. {i}) (set (map fst d))" by (simp add: inj_on_def)
  with d show ?thesis unfolding eq by (subst distinct_map) (rule conjI)
qed

lemma level_is_frequent_1:
  assumes fin: "\<forall>t \<in> set ts. finite t" and msc: "1 \<le> msc"
  shows "level_is ts msc (frequent_1 msc (item_counts ts)) 1"
  unfolding level_is_def
proof (intro conjI allI)
  show "distinct (map fst (frequent_1 msc (item_counts ts)))"
    unfolding frequent_1_def
    by (intro distinct_singleton_keys distinct_filter_keys distinct_item_counts)
next
  fix I :: "'a set"
  show "map_of (frequent_1 msc (item_counts ts)) I =
        (if card I = 1 \<and> frequent ts msc I then Some (support_count ts I) else None)"
  proof (cases "card I = 1")
    case True
    then obtain x where I: "I = {x}" by (rule card_1_singletonE)
    have "map_of (frequent_1 msc (item_counts ts)) {x} =
          (if msc \<le> int (support_count ts {x}) then Some (support_count ts {x}) else None)"
      unfolding frequent_1_def map_of_singleton_keys
        map_of_filter_distinct [OF distinct_item_counts] map_of_item_counts [OF fin]
      using msc by simp
    then show ?thesis unfolding I by (simp add: frequent_def)
  next
    case False
    then have "\<And>x. I \<noteq> {x}" by auto
    then have "map_of (frequent_1 msc (item_counts ts)) I = None"
      unfolding frequent_1_def by (rule map_of_singleton_keys_None)
    then show ?thesis using False by simp
  qed
qed

lemma found_upto_first:
  assumes "level_is ts msc Lk 1"
  shows "found_upto ts msc (dict_update [] Lk) 1"
  unfolding found_upto_def
proof (intro conjI allI)
  show "distinct (map fst (dict_update [] Lk))" by (rule distinct_dict_update) simp
next
  fix I :: "'a set"
  have d: "distinct (map fst Lk)" using assms by (simp add: level_is_def)
  have "map_of (dict_update [] Lk) I = map_of Lk I"
    unfolding map_of_dict_update [OF d] by (simp split: option.splits)
  also have "\<dots> = (if card I = 1 \<and> frequent ts msc I then Some (support_count ts I) else None)"
    using assms by (simp add: level_is_def)
  also have "\<dots> = (if 1 \<le> card I \<and> card I \<le> 1 \<and> frequent ts msc I
           then Some (support_count ts I) else None)"
    by (simp add: le_antisym)
  finally show "map_of (dict_update [] Lk) I =
        (if 1 \<le> card I \<and> card I \<le> 1 \<and> frequent ts msc I
           then Some (support_count ts I) else None)" .
qed

subsubsection \<open>The next level\<close>

text \<open>
  Completeness of join and prune: a frequent itemset of \<open>k \<ge> 2\<close> items is the union of
  two of its subsets of \<open>k - 1\<close> items, which are frequent and so keys of the previous
  level, as are all its subsets of \<open>k - 1\<close> items.
\<close>

lemma frequent_in_candidates:
  assumes lvl: "level_is ts msc Lk (k - 1)" and k: "2 \<le> k"
    and card: "card I = k" and freq: "frequent ts msc I"
  shows "I \<in> set (gen_candidates Lk k)"
proof -
  have fin: "finite I" using card k card_ge_0_finite by force
  have d: "distinct (map fst Lk)" using lvl by (simp add: level_is_def)
  have sub: "S \<in> fst ` set Lk" if "S \<subseteq> I" "card S = k - 1" for S
  proof -
    have "S \<noteq> {}" using that(2) k by auto
    with freq that(1) have "frequent ts msc S" by (rule frequent_subset)
    with that(2) show ?thesis unfolding level_is_key [OF lvl] by simp
  qed
  from card k have "2 \<le> card I" by simp
  then obtain x y where xy: "x \<in> I" "y \<in> I" "x \<noteq> y"
    by (metis card_2_iff' card card_le_Suc0_iff_eq fin not_less_eq_eq numeral_2_eq_2)
  let ?A = "I - {x}" and ?B = "I - {y}"
  have "card ?A = k - 1" "card ?B = k - 1" using xy card fin by simp_all
  then have "?A \<in> fst ` set Lk" "?B \<in> fst ` set Lk" using sub by simp_all
  moreover have "?A \<noteq> ?B" using xy by blast
  moreover have "I = ?A \<union> ?B" using xy by blast
  moreover have "\<forall>S. S \<subseteq> I \<and> card S = k - 1 \<longrightarrow> S \<in> fst ` set Lk" using sub by blast
  ultimately have "\<exists>A B. A \<in> fst ` set Lk \<and> B \<in> fst ` set Lk \<and> A \<noteq> B \<and> I = A \<union> B
                \<and> card I = k \<and> (\<forall>S. S \<subseteq> I \<and> card S = k - 1 \<longrightarrow> S \<in> fst ` set Lk)"
    using card by blast
  moreover have "1 \<le> k" using k by simp
  ultimately show ?thesis unfolding in_gen_candidates [OF d \<open>1 \<le> k\<close>] by blast
qed

definition next_level :: "('a::linorder) set list \<Rightarrow> int \<Rightarrow> ('a set, nat) dict \<Rightarrow> nat \<Rightarrow> ('a set, nat) dict" where
  "next_level ts msc Lk k =
     filter_support msc (map (\<lambda>c. (c, support_count ts c)) (gen_candidates Lk k))"

lemma level_is_next:
  assumes lvl: "level_is ts msc Lk (k - 1)" and k: "2 \<le> k"
  shows "level_is ts msc (next_level ts msc Lk k) k"
  unfolding level_is_def
proof (intro conjI allI)
  let ?cs = "gen_candidates Lk k"
  let ?d = "map (\<lambda>c. (c, support_count ts c)) ?cs"
  have dd: "distinct (map fst ?d)" using distinct_gen_candidates [of Lk k] by (simp add: comp_def)
  show "distinct (map fst (next_level ts msc Lk k))"
    unfolding next_level_def filter_support_def using dd by (rule distinct_filter_keys)
  fix I :: "'a set"
  have "map_of (next_level ts msc Lk k) I =
        (if I \<in> set ?cs \<and> msc \<le> int (support_count ts I) then Some (support_count ts I) else None)"
    unfolding next_level_def filter_support_def map_of_filter_distinct [OF dd] map_of_map_fun
    by simp
  moreover have "I \<in> set ?cs \<and> msc \<le> int (support_count ts I) \<longleftrightarrow> card I = k \<and> frequent ts msc I"
  proof
    assume a: "I \<in> set ?cs \<and> msc \<le> int (support_count ts I)"
    then have c: "card I = k" using gen_candidates_card by blast
    then have "I \<noteq> {}" using k by auto
    with a c show "card I = k \<and> frequent ts msc I" by (simp add: frequent_def)
  next
    assume a: "card I = k \<and> frequent ts msc I"
    then have "I \<in> set ?cs" using frequent_in_candidates [OF lvl k] by blast
    with a show "I \<in> set ?cs \<and> msc \<le> int (support_count ts I)" by (simp add: frequent_def)
  qed
  ultimately show "map_of (next_level ts msc Lk k) I =
        (if card I = k \<and> frequent ts msc I then Some (support_count ts I) else None)"
    by simp
qed

lemma found_upto_next:
  assumes acc: "found_upto ts msc L (k - 1)" and lvl: "level_is ts msc Lk' k" and k: "2 \<le> k"
  shows "found_upto ts msc (dict_update L Lk') k"
  unfolding found_upto_def
proof (intro conjI allI)
  show "distinct (map fst (dict_update L Lk'))"
    using acc by (intro distinct_dict_update) (simp add: found_upto_def)
next
  fix I :: "'a set"
  have d: "distinct (map fst Lk')" using lvl by (simp add: level_is_def)
  have m1: "map_of Lk' I = (if card I = k \<and> frequent ts msc I then Some (support_count ts I) else None)"
    using lvl by (simp add: level_is_def)
  have m2: "map_of L I = (if 1 \<le> card I \<and> card I \<le> k - 1 \<and> frequent ts msc I
           then Some (support_count ts I) else None)"
    using acc by (simp add: found_upto_def)
  have "(1 \<le> card I \<and> card I \<le> k) = (card I = k \<or> (1 \<le> card I \<and> card I \<le> k - 1))"
    using k by auto
  then show "map_of (dict_update L Lk') I =
        (if 1 \<le> card I \<and> card I \<le> k \<and> frequent ts msc I
           then Some (support_count ts I) else None)"
    unfolding map_of_dict_update [OF d] m1 m2 by auto
qed

subsubsection \<open>The loop\<close>

lemma apriori_loop_Nil: "apriori_loop ts msc [] L k = Inr L"
  by (subst apriori_loop.simps) simp

lemma apriori_loop_step:
  assumes "Lk \<noteq> []"
  shows "apriori_loop ts msc Lk L k =
         apriori_loop ts msc (next_level ts msc Lk k)
           (dict_update L (next_level ts msc Lk k)) (k + 1)"
  by (subst apriori_loop.simps) (simp add: assms count_support_gen next_level_def Let_def)

lemma level_empty_no_larger:
  assumes lvl: "level_is ts msc [] j" and j: "1 \<le> j"
    and freq: "frequent ts msc I" and fin: "finite I"
  shows "card I < j"
proof (rule ccontr)
  assume "\<not> card I < j"
  then have "j \<le> card I" by simp
  then obtain S where S: "S \<subseteq> I" "card S = j"
    using obtain_subset_with_card_n by metis
  have "S \<noteq> {}" using S(2) j by auto
  with freq S(1) have "frequent ts msc S" by (rule frequent_subset)
  with S(2) have "S \<in> fst ` set ([] :: ('a set, nat) dict)"
    unfolding level_is_key [OF lvl] by simp
  then show False by simp
qed

lemma apriori_loop_correct:
  "\<forall>t \<in> set ts. finite t \<Longrightarrow> 1 \<le> msc \<Longrightarrow> 2 \<le> k \<Longrightarrow>
   level_is ts msc Lk (k - 1) \<Longrightarrow> found_upto ts msc L (k - 1) \<Longrightarrow>
   \<exists>L'. apriori_loop ts msc Lk L k = Inr L' \<and> distinct (map fst L') \<and>
        (\<forall>I. map_of L' I = (if frequent ts msc I then Some (support_count ts I) else None))"
proof (induction ts msc Lk L k rule: apriori_loop.induct)
  case (1 ts msc Lk L k)
  note fin = "1.prems"(1) and msc = "1.prems"(2) and k = "1.prems"(3)
    and lvl = "1.prems"(4) and acc = "1.prems"(5)
  show ?case
  proof (cases "Lk = []")
    case True
    have d: "distinct (map fst L)" using acc by (simp add: found_upto_def)
    have m: "map_of L I = (if frequent ts msc I then Some (support_count ts I) else None)" for I
    proof -
      have mL: "map_of L I = (if 1 \<le> card I \<and> card I \<le> k - 1 \<and> frequent ts msc I
           then Some (support_count ts I) else None)"
        using acc unfolding found_upto_def by blast
      show ?thesis
      proof (cases "frequent ts msc I")
        case False
        then show ?thesis unfolding mL by simp
      next
        case freq: True
        have fI: "finite I" using freq msc fin by (rule frequent_finite)
        have "I \<noteq> {}" using freq by (simp add: frequent_def)
        then have c1: "1 \<le> card I" using fI by (simp add: Suc_le_eq card_gt_0_iff)
        have "1 \<le> k - 1" using k by simp
        from level_empty_no_larger [OF lvl [unfolded True] this freq fI]
        have "card I \<le> k - 1" by simp
        with c1 freq show ?thesis unfolding mL by simp
      qed
    qed
    show ?thesis unfolding True apriori_loop_Nil using d m by blast
  next
    case False
    let ?Lk' = "next_level ts msc Lk k"
    have cs: "count_support ts (gen_candidates Lk k) =
          Inr (map (\<lambda>c. (c, support_count ts c)) (gen_candidates Lk k))"
      by (rule count_support_gen)
    have eq: "?Lk' = filter_support msc (map (\<lambda>c. (c, support_count ts c)) (gen_candidates Lk k))"
      by (simp add: next_level_def)
    have lvl': "level_is ts msc ?Lk' (k + 1 - 1)"
      using level_is_next [OF lvl k] by simp
    have acc': "found_upto ts msc (dict_update L ?Lk') (k + 1 - 1)"
      using found_upto_next [OF acc _ k, of ?Lk'] level_is_next [OF lvl k] by simp
    have k': "2 \<le> k + 1" using k by simp
    from "1.IH" [OF False cs eq fin msc k' lvl' acc']
    show ?thesis unfolding apriori_loop_step [OF False, of ts msc L k] .
  qed
qed

subsubsection \<open>The whole miner\<close>

lemma min_support_count_ge_1: "1 \<le> min_support_count ms n"
  by (simp add: min_support_count_def)

lemma map_of_map_values:
  "map_of (map (\<lambda>p. (fst p, g (snd p))) d) k = map_option g (map_of d k)"
  by (induction d) auto

lemma map_fst_map_values: "map fst (map (\<lambda>p. (fst p, g (snd p))) d) = map fst d"
  by (induction d) auto

lemma normalise_counts:
  assumes "n \<noteq> 0"
  shows "map_res (normalise_count n) L =
         Inr (map (\<lambda>p. (fst p, (\<lambda>c. of_nat c / of_nat n) (snd p))) L)"
  by (rule map_res_Inr) (simp add: normalise_count_def py_truediv_def assms)

text \<open>
  The result of the breadth-first miner: it raises nothing, its keys are distinct, and
  it maps exactly the frequent itemsets, each to its count divided by \<open>n\<close>.
\<close>

lemma apriori_correct:
  assumes fin: "\<forall>t \<in> set ts. finite t" and ne: "ts \<noteq> []"
  shows "\<exists>m. apriori ts ms = Inr m \<and> distinct (map fst m) \<and>
    (\<forall>I. map_of m I =
       (if frequent ts (min_support_count ms (length ts)) I
        then Some (of_nat (support_count ts I) / of_nat (length ts)) else None))"
proof -
  let ?n = "length ts"
  let ?msc = "min_support_count ms ?n"
  let ?Lk = "frequent_1 ?msc (item_counts ts)"
  have n: "?n \<noteq> 0" using ne by simp
  have msc: "1 \<le> ?msc" by (rule min_support_count_ge_1)
  have lvl: "level_is ts ?msc ?Lk (2 - 1)"
    using level_is_frequent_1 [OF fin msc] by simp
  have acc: "found_upto ts ?msc (dict_update [] ?Lk) (2 - 1)"
    using found_upto_first [OF level_is_frequent_1 [OF fin msc]] by simp
  from apriori_loop_correct [OF fin msc order_refl lvl acc]
  obtain L' where L': "apriori_loop ts ?msc ?Lk (dict_update [] ?Lk) 2 = Inr L'"
    "distinct (map fst L')"
    "\<And>I. map_of L' I = (if frequent ts ?msc I then Some (support_count ts I) else None)"
    by blast
  let ?m = "map (\<lambda>p. (fst p, (\<lambda>c. of_nat c / of_nat ?n :: rat) (snd p))) L'"
  have "apriori ts ms = Inr ?m"
    unfolding apriori_def Let_def using n L'(1) normalise_counts [OF n] by simp
  moreover have "distinct (map fst ?m)"
    using L'(2) by (simp add: comp_def)
  moreover have "map_of ?m I =
       (if frequent ts ?msc I then Some (of_nat (support_count ts I) / of_nat ?n) else None)" for I
    using map_of_map_values [of "\<lambda>c. of_nat c / of_nat ?n :: rat" L' I] L'(3) [of I]
    by (cases "frequent ts ?msc I") simp_all
  ultimately show ?thesis by blast
qed

section \<open>Properties of the depth-first miner\<close>

subsection \<open>Transaction-id sets\<close>

text \<open>The ids of the transactions that contain the itemset \<open>I\<close>.\<close>

definition tidset :: "'a set list \<Rightarrow> 'a set \<Rightarrow> nat set" where
  "tidset ts I = {i. i < length ts \<and> I \<subseteq> ts ! i}"

lemma finite_tidset [simp]: "finite (tidset ts I)"
  unfolding tidset_def by simp

lemma card_tidset: "card (tidset ts I) = support_count ts I"
  unfolding tidset_def support_count_def by (simp add: length_filter_conv_card)

lemma tidset_Un: "tidset ts (A \<union> B) = tidset ts A \<inter> tidset ts B"
  unfolding tidset_def by auto

lemma tidset_snoc:
  "tidset (ts @ [t]) I = tidset ts I \<union> (if I \<subseteq> t then {length ts} else {})"
proof (rule set_eqI)
  fix i
  show "i \<in> tidset (ts @ [t]) I \<longleftrightarrow> i \<in> tidset ts I \<union> (if I \<subseteq> t then {length ts} else {})"
  proof (cases "i < length ts")
    case True
    then show ?thesis by (simp add: tidset_def nth_append)
  next
    case False
    then show ?thesis by (cases "i = length ts") (simp_all add: tidset_def nth_append)
  qed
qed

lemma tidset_Nil [simp]: "tidset [] I = {}"
  by (simp add: tidset_def)

subsection \<open>The vertical index\<close>

lemma map_of_add_tid:
  "map_of (add_tid tid x d) S =
   (if S = {x} then Some (insert tid (case map_of d S of None \<Rightarrow> {} | Some T \<Rightarrow> T))
    else map_of d S)"
  by (simp add: add_tid_def update_conv')

lemma distinct_add_tid: "distinct (map fst d) \<Longrightarrow> distinct (map fst (add_tid tid x d))"
  unfolding add_tid_def by (rule distinct_update)

lemma distinct_fold_add_tid:
  "distinct (map fst d) \<Longrightarrow> distinct (map fst (fold (add_tid tid) xs d))"
  by (induction xs arbitrary: d) (simp_all add: distinct_add_tid)

lemma map_of_fold_add_tid:
  "map_of (fold (add_tid tid) xs d) S =
   (if \<exists>x \<in> set xs. S = {x}
    then Some (insert tid (case map_of d S of None \<Rightarrow> {} | Some T \<Rightarrow> T))
    else map_of d S)"
proof (induction xs arbitrary: d)
  case Nil
  show ?case by simp
next
  case (Cons x xs)
  have step: "map_of (fold (add_tid tid) (x # xs) d) S =
      (if \<exists>y \<in> set xs. S = {y}
       then Some (insert tid (case map_of (add_tid tid x d) S of None \<Rightarrow> {} | Some T \<Rightarrow> T))
       else map_of (add_tid tid x d) S)"
    using Cons.IH [of "add_tid tid x d"] by simp
  show ?case unfolding step map_of_add_tid by auto
qed

definition index_transaction ::
  "nat \<times> ('a::linorder) set \<Rightarrow> ('a set, nat set) dict \<Rightarrow> ('a set, nat set) dict" where
  "index_transaction p d = fold (add_tid (fst p)) (sorted_list_of_set (snd p)) d"

lemma build_tidsets_fold: "build_tidsets ts = fold index_transaction (enumerate 0 ts) []"
proof -
  have eq: "(\<lambda>(tid, t) tidsets. fold (add_tid tid) (sorted_list_of_set t) tidsets) = index_transaction"
    by (intro ext) (simp add: index_transaction_def case_prod_beta)
  show ?thesis unfolding build_tidsets_def eq ..
qed

lemma build_tidsets_snoc:
  "build_tidsets (ts @ [t]) = index_transaction (length ts, t) (build_tidsets ts)"
  unfolding build_tidsets_fold by (simp add: enumerate_append_eq)

lemma distinct_build_tidsets: "distinct (map fst (build_tidsets ts))"
proof (induction ts rule: rev_induct)
  case Nil
  show ?case by (simp add: build_tidsets_fold)
next
  case (snoc t ts)
  show ?case unfolding build_tidsets_snoc index_transaction_def
    using snoc.IH by (rule distinct_fold_add_tid)
qed

lemma map_of_build_tidsets:
  assumes "\<forall>t \<in> set ts. finite t"
  shows "map_of (build_tidsets ts) S =
         (if (\<exists>x. S = {x}) \<and> tidset ts S \<noteq> {} then Some (tidset ts S) else None)"
  using assms
proof (induction ts rule: rev_induct)
  case Nil
  show ?case by (simp add: build_tidsets_fold)
next
  case (snoc t ts)
  have fin: "finite t" and fins: "\<forall>t \<in> set ts. finite t" using snoc.prems by simp_all
  note IH = snoc.IH [OF fins]
  have m: "map_of (build_tidsets (ts @ [t])) S =
      (if \<exists>x \<in> t. S = {x}
       then Some (insert (length ts) (case map_of (build_tidsets ts) S of None \<Rightarrow> {} | Some T \<Rightarrow> T))
       else map_of (build_tidsets ts) S)"
    unfolding build_tidsets_snoc index_transaction_def map_of_fold_add_tid
    using fin by simp
  show ?case
  proof (cases "\<exists>x. S = {x}")
    case False
    then show ?thesis unfolding m IH by auto
  next
    case True
    then obtain x where S: "S = {x}" by blast
    have old: "(case map_of (build_tidsets ts) S of None \<Rightarrow> {} | Some T \<Rightarrow> T) = tidset ts S"
      unfolding IH using True by (cases "tidset ts S = {}") simp_all
    show ?thesis
    proof (cases "x \<in> t")
      case True
      then have "S \<subseteq> t" using S by simp
      then have "tidset (ts @ [t]) S = insert (length ts) (tidset ts S)"
        unfolding tidset_snoc by simp
      then show ?thesis unfolding m old using True S by auto
    next
      case False
      then have "\<not> S \<subseteq> t" using S by simp
      then have "tidset (ts @ [t]) S = tidset ts S" unfolding tidset_snoc by simp
      then show ?thesis unfolding m IH using False S by auto
    qed
  qed
qed

subsection \<open>The frequent single items, sorted\<close>

text \<open>
  \<open>items_ok\<close>: a list of search candidates whose keys are distinct singletons, each with
  its transaction-id set.
\<close>

definition items_ok :: "'a set list \<Rightarrow> ('a set \<times> nat set) list \<Rightarrow> bool" where
  "items_ok ts items \<longleftrightarrow>
     distinct (map fst items) \<and> (\<forall>p \<in> set items. \<exists>x. p = ({x}, tidset ts {x}))"

lemma first_item_singleton: "first_item {x} = Inr x"
  by (simp add: first_item_def)

lemma sorted_by_item_ok:
  assumes "\<forall>p \<in> set items. \<exists>x. fst p = {x}"
  shows "\<exists>items'. sorted_by_item items = Inr items' \<and> set items' = set items
           \<and> (distinct (map fst items) \<longrightarrow> distinct (map fst items'))"
proof -
  let ?key = "\<lambda>p. (the_elem (fst p), p)"
  have k: "with_sort_key p = Inr (?key p)" if "p \<in> set items" for p
  proof -
    from assms that obtain x where "fst p = {x}" by blast
    then show ?thesis by (simp add: with_sort_key_def first_item_singleton)
  qed
  have mr: "map_res with_sort_key items = Inr (map ?key items)"
    by (rule map_res_Inr) (rule k)
  let ?items' = "map snd (sort_key fst (map ?key items))"
  have r: "sorted_by_item items = Inr ?items'"
    unfolding sorted_by_item_def mr by simp
  have s: "set ?items' = set items" by (simp add: image_image)
  have d: "distinct (map fst ?items')" if dist: "distinct (map fst items)"
  proof -
    have di: "distinct (map ?key items)"
      using dist by (simp add: distinct_map inj_on_def distinct_map [of fst items])
    have inj: "inj_on (fst \<circ> snd) (set (map ?key items))"
      using dist by (auto simp: inj_on_def distinct_map)
    have "distinct (map (fst \<circ> snd) (sort_key fst (map ?key items)))"
      unfolding distinct_map using di inj by simp
    then show ?thesis by simp
  qed
  from r s d show ?thesis by blast
qed

lemma frequent_singletons_ok:
  assumes fin: "\<forall>t \<in> set ts. finite t" and msc: "1 \<le> msc"
  shows "items_ok ts (frequent_singletons msc (build_tidsets ts))"
    and "fst ` set (frequent_singletons msc (build_tidsets ts)) =
         {{x} | x. msc \<le> int (support_count ts {x})}"
proof -
  let ?d = "build_tidsets ts"
  let ?fs = "frequent_singletons msc ?d"
  have dd: "distinct (map fst ?d)" by (rule distinct_build_tidsets)
  have m: "map_of ?fs S =
      (if (\<exists>x. S = {x}) \<and> msc \<le> int (support_count ts S) then Some (tidset ts S) else None)" for S
  proof -
    have "msc \<le> int (card (tidset ts S)) \<Longrightarrow> tidset ts S \<noteq> {}"
      using msc by auto
    then show ?thesis
      unfolding frequent_singletons_def map_of_filter_distinct [OF dd] map_of_build_tidsets [OF fin]
      by (auto simp: card_tidset)
  qed
  have dfs: "distinct (map fst ?fs)"
    unfolding frequent_singletons_def using dd by (rule distinct_filter_keys)
  have e: "\<exists>x. p = ({x}, tidset ts {x})" if "p \<in> set ?fs" for p
  proof -
    obtain S T where p: "p = (S, T)" by (cases p)
    have "map_of ?fs S = Some T" using that dfs unfolding p by simp
    then have "(\<exists>x. S = {x}) \<and> T = tidset ts S" unfolding m by (simp split: if_splits)
    then show ?thesis unfolding p by blast
  qed
  show "items_ok ts ?fs" unfolding items_ok_def using dfs e by blast
  show "fst ` set ?fs = {{x} | x. msc \<le> int (support_count ts {x})}"
  proof (rule set_eqI)
    fix S
    have "S \<in> fst ` set ?fs \<longleftrightarrow> map_of ?fs S \<noteq> None" by (simp add: map_of_eq_None_iff)
    also have "\<dots> \<longleftrightarrow> (\<exists>x. S = {x}) \<and> msc \<le> int (support_count ts S)"
      unfolding m by simp
    also have "\<dots> \<longleftrightarrow> S \<in> {{x} | x. msc \<le> int (support_count ts {x})}" by blast
    finally show "S \<in> fst ` set ?fs \<longleftrightarrow> S \<in> {{x} | x. msc \<le> int (support_count ts {x})}" .
  qed
qed

subsection \<open>The recursive search\<close>

text \<open>
  The itemsets that the search reaches from the prefix \<open>pre\<close> with the items \<open>X\<close> still to
  try: the frequent extensions of \<open>pre\<close> by a non-empty set of those items.
\<close>

definition extensions :: "'a set list \<Rightarrow> int \<Rightarrow> 'a set \<Rightarrow> 'a set \<Rightarrow> 'a set set" where
  "extensions ts msc pre X =
     {pre \<union> S | S. S \<noteq> {} \<and> S \<subseteq> X \<and> msc \<le> int (support_count ts (pre \<union> S))}"

lemma extensions_insert_frequent:
  assumes "msc \<le> int (support_count ts (pre \<union> {x}))"
  shows "extensions ts msc pre (insert x X) =
         insert (pre \<union> {x}) (extensions ts msc (pre \<union> {x}) X \<union> extensions ts msc pre X)"
proof (intro set_eqI iffI)
  fix I assume "I \<in> extensions ts msc pre (insert x X)"
  then obtain S where S: "I = pre \<union> S" "S \<noteq> {}" "S \<subseteq> insert x X"
    "msc \<le> int (support_count ts (pre \<union> S))"
    unfolding extensions_def by blast
  show "I \<in> insert (pre \<union> {x}) (extensions ts msc (pre \<union> {x}) X \<union> extensions ts msc pre X)"
  proof (cases "x \<in> S")
    case False
    then have "S \<subseteq> X" using S(3) by blast
    then have "I \<in> extensions ts msc pre X" unfolding extensions_def using S by blast
    then show ?thesis by simp
  next
    case True
    show ?thesis
    proof (cases "S - {x} = {}")
      case True
      then have "S = {x}" using \<open>x \<in> S\<close> by blast
      then show ?thesis using S(1) by simp
    next
      case False
      have "I = (pre \<union> {x}) \<union> (S - {x})" using S(1) True by blast
      moreover have "S - {x} \<subseteq> X" using S(3) by blast
      moreover have "msc \<le> int (support_count ts ((pre \<union> {x}) \<union> (S - {x})))"
        using S(4) calculation(1) S(1) by simp
      ultimately have "I \<in> extensions ts msc (pre \<union> {x}) X"
        unfolding extensions_def using False by blast
      then show ?thesis by simp
    qed
  qed
next
  fix I assume "I \<in> insert (pre \<union> {x}) (extensions ts msc (pre \<union> {x}) X \<union> extensions ts msc pre X)"
  then consider "I = pre \<union> {x}" | "I \<in> extensions ts msc (pre \<union> {x}) X"
    | "I \<in> extensions ts msc pre X" by blast
  then show "I \<in> extensions ts msc pre (insert x X)"
  proof cases
    case 1
    have "{x} \<noteq> {}" "{x} \<subseteq> insert x X" by simp_all
    then show ?thesis unfolding extensions_def using 1 assms by blast
  next
    case 2
    then obtain S where S: "I = (pre \<union> {x}) \<union> S" "S \<subseteq> X"
      "msc \<le> int (support_count ts ((pre \<union> {x}) \<union> S))"
      unfolding extensions_def by blast
    have "I = pre \<union> (insert x S)" using S(1) by blast
    moreover have "insert x S \<noteq> {}" "insert x S \<subseteq> insert x X" using S(2) by auto
    moreover have "msc \<le> int (support_count ts (pre \<union> (insert x S)))"
      using S(3) by (simp add: Un_assoc)
    ultimately show ?thesis unfolding extensions_def by blast
  next
    case 3
    then obtain S where S: "I = pre \<union> S" "S \<noteq> {}" "S \<subseteq> X"
      "msc \<le> int (support_count ts (pre \<union> S))"
      unfolding extensions_def by blast
    have "S \<subseteq> insert x X" using S(3) by blast
    then show ?thesis unfolding extensions_def using S by blast
  qed
qed

lemma extensions_insert_infrequent:
  assumes "\<not> msc \<le> int (support_count ts (pre \<union> {x}))"
  shows "extensions ts msc pre (insert x X) = extensions ts msc pre X"
proof (intro set_eqI iffI)
  fix I assume "I \<in> extensions ts msc pre (insert x X)"
  then obtain S where S: "I = pre \<union> S" "S \<noteq> {}" "S \<subseteq> insert x X"
    "msc \<le> int (support_count ts (pre \<union> S))"
    unfolding extensions_def by blast
  have "x \<notin> S"
  proof
    assume "x \<in> S"
    then have "pre \<union> {x} \<subseteq> pre \<union> S" by blast
    from support_count_antimono [OF this, of ts] S(4) assms show False by simp
  qed
  then have "S \<subseteq> X" using S(3) by blast
  then show "I \<in> extensions ts msc pre X" unfolding extensions_def using S by blast
next
  fix I assume "I \<in> extensions ts msc pre X"
  then obtain S where S: "I = pre \<union> S" "S \<noteq> {}" "S \<subseteq> X"
    "msc \<le> int (support_count ts (pre \<union> S))"
    unfolding extensions_def by blast
  have "S \<subseteq> insert x X" using S(3) by blast
  then show "I \<in> extensions ts msc pre (insert x X)" unfolding extensions_def using S by blast
qed

lemma extensions_empty [simp]: "extensions ts msc pre {} = {}"
  unfolding extensions_def by simp

lemma dfs_Cons:
  "dfs msc pre pre_tids ((itemset_i, tids_i) # items) results =
   dfs msc pre pre_tids items
     (if msc \<le> int (card (if pre \<noteq> {} then pre_tids \<inter> tids_i else tids_i))
      then dfs msc (if pre \<noteq> {} then pre \<union> itemset_i else itemset_i)
             (if pre \<noteq> {} then pre_tids \<inter> tids_i else tids_i) items
             (AList.update (if pre \<noteq> {} then pre \<union> itemset_i else itemset_i)
                (if pre \<noteq> {} then pre_tids \<inter> tids_i else tids_i) results)
      else results)"
  by (simp only: dfs.simps Let_def)

lemma distinct_dfs:
  "distinct (map fst res) \<Longrightarrow> distinct (map fst (dfs msc pre pre_tids items res))"
proof (induction items arbitrary: pre pre_tids res)
  case Nil
  then show ?case by simp
next
  case (Cons p items)
  obtain s T where p: "p = (s, T)" by (cases p)
  let ?ni = "if pre \<noteq> {} then pre \<union> s else s"
  let ?nt = "if pre \<noteq> {} then pre_tids \<inter> T else T"
  have "distinct (map fst (if msc \<le> int (card ?nt)
      then dfs msc ?ni ?nt items (AList.update ?ni ?nt res) else res))"
  proof (cases "msc \<le> int (card ?nt)")
    case True
    have "distinct (map fst (AList.update ?ni ?nt res))" using Cons.prems by (rule distinct_update)
    from Cons.IH [OF this] show ?thesis using True by simp
  next
    case False
    then show ?thesis using Cons.prems by simp
  qed
  from Cons.IH [OF this] show ?case unfolding p dfs_Cons .
qed

lemma map_of_dfs:
  "items_ok ts items \<Longrightarrow> (pre \<noteq> {} \<Longrightarrow> pre_tids = tidset ts pre) \<Longrightarrow>
   map_of (dfs msc pre pre_tids items res) I =
   (if I \<in> extensions ts msc pre (\<Union> (fst ` set items)) then Some (tidset ts I)
    else map_of res I)"
proof (induction items arbitrary: pre pre_tids res)
  case Nil
  show ?case by simp
next
  case (Cons p items)
  from Cons.prems(1) obtain x where p: "p = ({x}, tidset ts {x})"
    unfolding items_ok_def by auto
  have ok: "items_ok ts items" using Cons.prems(1) unfolding items_ok_def by simp
  let ?X = "\<Union> (fst ` set items)"
  let ?ni = "pre \<union> {x}"
  let ?nt = "tidset ts (pre \<union> {x})"
  have ni: "(if pre \<noteq> {} then pre \<union> {x} else {x}) = ?ni" by simp
  have nt: "(if pre \<noteq> {} then pre_tids \<inter> tidset ts {x} else tidset ts {x}) = ?nt"
    using Cons.prems(2) by (cases "pre = {}") (simp_all add: tidset_Un [symmetric])
  have X: "\<Union> (fst ` set (p # items)) = insert x ?X" unfolding p by simp
  have unfold: "dfs msc pre pre_tids (p # items) res =
     dfs msc pre pre_tids items
       (if msc \<le> int (card ?nt)
        then dfs msc ?ni ?nt items (AList.update ?ni ?nt res) else res)"
    unfolding p dfs_Cons ni nt ..
  show ?case
  proof (cases "msc \<le> int (card ?nt)")
    case True
    then have freq: "msc \<le> int (support_count ts (pre \<union> {x}))" by (simp add: card_tidset)
    have ne: "?ni \<noteq> {}" by simp
    have inner: "map_of (dfs msc ?ni ?nt items (AList.update ?ni ?nt res)) I =
       (if I \<in> extensions ts msc ?ni ?X then Some (tidset ts I)
        else if I = ?ni then Some (tidset ts I) else map_of res I)"
      using Cons.IH [OF ok, of ?ni ?nt "AList.update ?ni ?nt res"]
      by (simp add: update_conv')
    have "map_of (dfs msc pre pre_tids (p # items) res) I =
       (if I \<in> extensions ts msc pre ?X then Some (tidset ts I)
        else if I \<in> extensions ts msc ?ni ?X then Some (tidset ts I)
        else if I = ?ni then Some (tidset ts I) else map_of res I)"
      unfolding unfold using True Cons.IH [OF ok Cons.prems(2)] inner by simp
    then show ?thesis unfolding X extensions_insert_frequent [OF freq] by auto
  next
    case False
    then have infreq: "\<not> msc \<le> int (support_count ts (pre \<union> {x}))" by (simp add: card_tidset)
    have "map_of (dfs msc pre pre_tids (p # items) res) I =
       (if I \<in> extensions ts msc pre ?X then Some (tidset ts I) else map_of res I)"
      unfolding unfold using False Cons.IH [OF ok Cons.prems(2)] by simp
    then show ?thesis unfolding X extensions_insert_infrequent [OF infreq] .
  qed
qed

subsection \<open>The whole miner\<close>

lemma extensions_top:
  assumes X: "X = {x. msc \<le> int (support_count ts {x})}"
  shows "I \<in> extensions ts msc {} X \<longleftrightarrow> frequent ts msc I"
proof
  assume "I \<in> extensions ts msc {} X"
  then show "frequent ts msc I" unfolding extensions_def frequent_def by auto
next
  assume f: "frequent ts msc I"
  have "I \<subseteq> X"
  proof
    fix x assume "x \<in> I"
    then have "{x} \<subseteq> I" by simp
    from support_count_antimono [OF this, of ts] f
    have "msc \<le> int (support_count ts {x})" by (simp add: frequent_def)
    then show "x \<in> X" unfolding X by simp
  qed
  moreover have "I = {} \<union> I" by simp
  ultimately show "I \<in> extensions ts msc {} X"
    unfolding extensions_def using f by (auto simp: frequent_def)
qed

lemma normalise_tidsets:
  assumes "n \<noteq> 0"
  shows "map_res (normalise_tids n) res =
         Inr (map (\<lambda>p. (fst p, (\<lambda>T. of_nat (card T) / of_nat n) (snd p))) res)"
  by (rule map_res_Inr) (simp add: normalise_tids_def py_truediv_def assms)

text \<open>
  The result of the depth-first miner: it raises nothing, its keys are distinct, and it
  maps exactly the frequent itemsets, each to its count divided by \<open>n\<close>.
\<close>

lemma eclat_correct:
  assumes fin: "\<forall>t \<in> set ts. finite t" and ne: "ts \<noteq> []"
  shows "\<exists>m. eclat ts ms = Inr m \<and> distinct (map fst m) \<and>
    (\<forall>I. map_of m I =
       (if frequent ts (min_support_count ms (length ts)) I
        then Some (of_nat (support_count ts I) / of_nat (length ts)) else None))"
proof -
  let ?n = "length ts"
  let ?msc = "min_support_count ms ?n"
  let ?fs = "frequent_singletons ?msc (build_tidsets ts)"
  have n: "?n \<noteq> 0" using ne by simp
  have msc: "1 \<le> ?msc" by (rule min_support_count_ge_1)
  note fs = frequent_singletons_ok [OF fin msc]
  have "\<forall>p \<in> set ?fs. \<exists>x. fst p = {x}"
    using fs(1) unfolding items_ok_def by fastforce
  from sorted_by_item_ok [OF this]
  obtain items where items: "sorted_by_item ?fs = Inr items" "set items = set ?fs"
    "distinct (map fst items)"
    using fs(1) unfolding items_ok_def by blast
  have ok: "items_ok ts items"
    using fs(1) items(2,3) unfolding items_ok_def by simp
  let ?X = "\<Union> (fst ` set items)"
  have X: "?X = {x. ?msc \<le> int (support_count ts {x})}"
    unfolding items(2) fs(2) by blast
  let ?res = "dfs ?msc {} {0..<?n} items []"
  have dres: "distinct (map fst ?res)" by (rule distinct_dfs) simp
  have mres: "map_of ?res I = (if frequent ts ?msc I then Some (tidset ts I) else None)" for I
    using map_of_dfs [OF ok, of "{}" "{0..<?n}" ?msc "[]" I] extensions_top [OF X, of I]
    by simp
  let ?m = "map (\<lambda>p. (fst p, (\<lambda>T. of_nat (card T) / of_nat ?n :: rat) (snd p))) ?res"
  have "eclat ts ms = Inr ?m"
    unfolding eclat_def Let_def using n items(1) normalise_tidsets [OF n] by simp
  moreover have "distinct (map fst ?m)" using dres by (simp add: comp_def)
  moreover have "map_of ?m I =
       (if frequent ts ?msc I then Some (of_nat (support_count ts I) / of_nat ?n) else None)" for I
    using map_of_map_values [of "\<lambda>T. of_nat (card T) / of_nat ?n :: rat" ?res I] mres [of I]
    by (cases "frequent ts ?msc I") (simp_all add: card_tidset)
  ultimately show ?thesis by blast
qed

section \<open>Properties of the rule generator\<close>

subsection \<open>The rule generator never raises\<close>

definition rule_opt :: "('a set, rat) dict \<Rightarrow> rat \<Rightarrow> rat \<Rightarrow> 'a set \<times> 'a set \<Rightarrow> 'a rule option" where
  "rule_opt freq_itemsets min_confidence supp_XY split =
     (case rule_of freq_itemsets min_confidence supp_XY split of Inl e \<Rightarrow> None | Inr ro \<Rightarrow> ro)"

lemma rule_of_Inr: "rule_of f mc sxy sp = Inr (rule_opt f mc sxy sp)"
  by (simp add: rule_opt_def rule_of_def py_truediv_def split: option.splits)

definition rules_for :: "(('a::linorder) set, rat) dict \<Rightarrow> rat \<Rightarrow> 'a set \<times> rat \<Rightarrow> 'a rule list" where
  "rules_for f mc entry =
     (if card (fst entry) < 2 then []
      else List.map_filter (rule_opt f mc (snd entry)) (splits (fst entry)))"

lemma fold_rule_step:
  "fold_res (rule_step f mc sxy) sps rules = Inr (rules @ List.map_filter (rule_opt f mc sxy) sps)"
proof (induction sps arbitrary: rules)
  case Nil
  show ?case by (simp add: List.map_filter_simps)
next
  case (Cons sp sps)
  have step: "rule_step f mc sxy sp rules =
      Inr (rules @ (case rule_opt f mc sxy sp of None \<Rightarrow> [] | Some r \<Rightarrow> [r]))"
    by (simp add: rule_step_def rule_of_Inr split: option.splits)
  have "fold_res (rule_step f mc sxy) (sp # sps) rules =
      Inr ((rules @ (case rule_opt f mc sxy sp of None \<Rightarrow> [] | Some r \<Rightarrow> [r]))
             @ List.map_filter (rule_opt f mc sxy) sps)"
    by (simp only: fold_res.simps step sum.case Cons.IH)
  then show ?case
    by (cases "rule_opt f mc sxy sp") simp_all
qed

lemma set_map_filter_opt:
  "set (List.map_filter g xs) = {y. \<exists>x \<in> set xs. g x = Some y}"
proof (induction xs)
  case Nil
  show ?case by simp
next
  case (Cons x xs)
  show ?case
  proof (cases "g x")
    case None
    then show ?thesis using Cons.IH by auto
  next
    case (Some y)
    then show ?thesis using Cons.IH by auto
  qed
qed

lemma itemset_step_Inr: "itemset_step f mc entry rules = Inr (rules @ rules_for f mc entry)"
  by (simp add: itemset_step_def rules_for_def fold_rule_step)

lemma fold_itemset_step:
  "fold_res (itemset_step f mc) es rules = Inr (rules @ concat (map (rules_for f mc) es))"
  by (induction es arbitrary: rules) (simp_all add: itemset_step_Inr)

lemma generate_association_rules_eq:
  "generate_association_rules f mc = Inr (concat (map (rules_for f mc) f))"
  by (simp add: generate_association_rules_def fold_itemset_step)

lemma in_rules_for:
  "r \<in> set (rules_for f mc entry) \<longleftrightarrow>
   2 \<le> card (fst entry) \<and> (\<exists>sp \<in> set (splits (fst entry)). rule_of f mc (snd entry) sp = Inr (Some r))"
  by (auto simp: rules_for_def set_map_filter_opt rule_of_Inr)

lemma in_generated:
  "r \<in> set (concat (map (rules_for f mc) f)) \<longleftrightarrow>
   (\<exists>entry \<in> set f. 2 \<le> card (fst entry) \<and>
      (\<exists>sp \<in> set (splits (fst entry)). rule_of f mc (snd entry) sp = Inr (Some r)))"
  by (simp add: in_rules_for)

text \<open>What an emitted rule says about the split it came from.\<close>

lemma rule_of_SomeD:
  assumes "rule_of f mc sxy sp = Inr (Some r)"
  shows "snd sp \<noteq> {} \<and>
    (\<exists>sx sy. map_of f (fst sp) = Some sx \<and> map_of f (snd sp) = Some sy \<and> sx \<noteq> 0
        \<and> mc \<le> sxy / sx
        \<and> r = \<lparr>antecedent = fst sp, consequent = snd sp, support = sxy,
                 confidence = sxy / sx,
                 lift = (if sx * sy > 0 then sxy / (sx * sy) else 0)\<rparr>)"
proof -
  have ne: "snd sp \<noteq> {}"
    using assms by (cases "snd sp = {}") (simp_all add: rule_of_def)
  obtain sx where sx: "map_of f (fst sp) = Some sx"
    using assms ne by (cases "map_of f (fst sp)") (simp_all add: rule_of_def)
  obtain sy where sy: "map_of f (snd sp) = Some sy"
    using assms ne sx by (cases "map_of f (snd sp)") (simp_all add: rule_of_def)
  have sx0: "sx \<noteq> 0"
    using assms ne sx sy by (cases "sx = 0") (simp_all add: rule_of_def)
  have conf: "mc \<le> sxy / sx"
    using assms ne sx sy sx0
    by (cases "sxy / sx < mc") (simp_all add: rule_of_def py_truediv_def)
  have "r = \<lparr>antecedent = fst sp, consequent = snd sp, support = sxy,
                 confidence = sxy / sx,
                 lift = (if sx * sy > 0 then sxy / (sx * sy) else 0)\<rparr>"
  proof (cases "sx * sy > 0")
    case True
    then have "sx * sy \<noteq> 0" by (metis less_irrefl)
    then show ?thesis
      using assms ne sx sy sx0 conf True by (simp add: rule_of_def py_truediv_def)
  next
    case False
    then show ?thesis
      using assms ne sx sy sx0 conf by (simp add: rule_of_def py_truediv_def)
  qed
  with ne sx sy sx0 conf show ?thesis by blast
qed

subsection \<open>The splits of an itemset\<close>

lemma in_splits_raw:
  "sp \<in> set (splits I) \<longleftrightarrow>
   (\<exists>r c. 1 \<le> r \<and> r < length (sorted_list_of_set I)
      \<and> c \<in> set (combinations (sorted_list_of_set I) r) \<and> sp = (set c, I - set c))"
  unfolding splits_def Let_def by auto

lemma in_splits:
  assumes "finite I"
  shows "sp \<in> set (splits I) \<longleftrightarrow> (\<exists>A. A \<subseteq> I \<and> A \<noteq> {} \<and> A \<noteq> I \<and> sp = (A, I - A))"
proof -
  let ?items = "sorted_list_of_set I"
  have items: "set ?items = I" "distinct ?items" "length ?items = card I"
    using assms by simp_all
  show ?thesis
  proof
    assume "sp \<in> set (splits I)"
    then obtain r c where rc: "1 \<le> r" "r < length ?items" "c \<in> set (combinations ?items r)"
      "sp = (set c, I - set c)"
      unfolding in_splits_raw by blast
    from combinations_elem [OF rc(3)] items
    have c: "set c \<subseteq> I" "length c = r" "distinct c" by simp_all
    then have card: "card (set c) = r" by (simp add: distinct_card)
    have "set c \<noteq> {}" using card rc(1) by auto
    moreover have "set c \<noteq> I" using card rc(2) items(3) by auto
    ultimately show "\<exists>A. A \<subseteq> I \<and> A \<noteq> {} \<and> A \<noteq> I \<and> sp = (A, I - A)"
      using c(1) rc(4) by blast
  next
    assume "\<exists>A. A \<subseteq> I \<and> A \<noteq> {} \<and> A \<noteq> I \<and> sp = (A, I - A)"
    then obtain A where A: "A \<subseteq> I" "A \<noteq> {}" "A \<noteq> I" "sp = (A, I - A)" by blast
    have finA: "finite A" using A(1) assms by (rule finite_subset)
    have r1: "1 \<le> card A" using finA A(2) by (simp add: Suc_le_eq card_gt_0_iff)
    have "A \<subset> I" using A(1,3) by blast
    then have r2: "card A < length ?items"
      using assms items(3) by (simp add: psubset_card_mono)
    have "A \<subseteq> set ?items" using A(1) items(1) by simp
    from combinations_complete [OF items(2) this refl]
    obtain c where "c \<in> set (combinations ?items (card A))" "set c = A" by blast
    with r1 r2 A(4) show "sp \<in> set (splits I)"
      unfolding in_splits_raw by blast
  qed
qed

lemma length_splits_sum:
  "length (splits I) = sum ((choose) (length (sorted_list_of_set I))) {1..<length (sorted_list_of_set I)}"
  unfolding splits_def Let_def
  by (simp add: length_concat comp_def length_combinations interv_sum_list_conv_sum_set_nat)

lemma sum_choose_inner:
  assumes "1 \<le> (k::nat)"
  shows "sum ((choose) k) {1..<k} + 2 = 2 ^ k"
proof -
  have split: "{..k} = insert 0 (insert k {1..<k})" using assms by auto
  have "sum ((choose) k) {..k} = (k choose 0) + ((k choose k) + sum ((choose) k) {1..<k})"
    unfolding split using assms by (subst sum.insert; simp)
  then show ?thesis by (simp add: choose_row_sum)
qed

lemma length_splits:
  assumes "1 \<le> card I"
  shows "length (splits I) + 2 = 2 ^ card I"
proof -
  have "finite I" using assms card_ge_0_finite by force
  then have "length (sorted_list_of_set I) = card I" by simp
  then show ?thesis
    unfolding length_splits_sum using sum_choose_inner [OF assms] by simp
qed

lemma set_fst_splits:
  assumes "finite I"
  shows "fst ` set (splits I) = Pow I - {{}, I}"
proof (rule set_eqI)
  fix A
  have "A \<in> fst ` set (splits I) \<longleftrightarrow> (\<exists>C. (A, C) \<in> set (splits I))" by force
  also have "\<dots> \<longleftrightarrow> A \<subseteq> I \<and> A \<noteq> {} \<and> A \<noteq> I"
    unfolding in_splits [OF assms] by blast
  finally show "A \<in> fst ` set (splits I) \<longleftrightarrow> A \<in> Pow I - {{}, I}" by blast
qed

lemma distinct_fst_splits:
  assumes "1 \<le> card I"
  shows "distinct (map fst (splits I))"
proof (rule card_distinct)
  have fin: "finite I" using assms card_ge_0_finite by force
  have ne: "I \<noteq> {}" using assms by auto
  have "card (Pow I - {{}, I}) = card (Pow I) - card {{}, I}"
    using fin by (intro card_Diff_subset) auto
  also have "\<dots> = 2 ^ card I - 2" using fin ne by (simp add: card_Pow)
  finally have "card (fst ` set (splits I)) = 2 ^ card I - 2"
    unfolding set_fst_splits [OF fin] .
  then show "card (set (map fst (splits I))) = length (map fst (splits I))"
    using length_splits [OF assms] by simp
qed

lemma distinct_splits: "1 \<le> card I \<Longrightarrow> distinct (splits I)"
  using distinct_fst_splits [of I] by (simp add: distinct_map)

section \<open>The claims about the rule generator\<close>

text \<open>
  Claim C10. The rule generator is total: for every mapping (also one that holds supports
  equal to 0) and every \<open>min_confidence\<close> it returns a list of rules and raises nothing;
  the body of its loop raises on no split, and a split whose antecedent has support 0
  is skipped before the confidence is divided.
\<close>

theorem rule_generation_total:
  "(\<exists>rules. generate_association_rules f mc = Inr rules)
   \<and> (\<exists>ro. rule_of f mc sxy sp = Inr ro)
   \<and> (map_of f (fst sp) = Some 0 \<longrightarrow> rule_of f mc sxy sp = Inr None)"
proof (intro conjI impI)
  show "\<exists>rules. generate_association_rules f mc = Inr rules"
    unfolding generate_association_rules_eq by blast
  show "\<exists>ro. rule_of f mc sxy sp = Inr ro"
    unfolding rule_of_Inr by blast
next
  assume "map_of f (fst sp) = Some 0"
  then show "rule_of f mc sxy sp = Inr None"
    by (simp add: rule_of_def split: option.splits)
qed

theorem rule_generation_total_witness:
  "map_of [({1::nat, 2}, 1 / 2), ({1}, 0::rat), ({2}, 1 / 2)] (fst ({1}, {2::nat})) = Some 0
   \<and> rule_of [({1::nat, 2}, 1 / 2), ({1}, 0), ({2}, 1 / 2)] (1 / 2) (1 / 2) ({1}, {2}) = Inr None
   \<and> (\<exists>rules. generate_association_rules [({1::nat, 2}, 1 / 2), ({1}, 0), ({2}, 1 / 2)] (1 / 2)
         = Inr rules)"
proof -
  have h: "map_of [({1::nat, 2}, 1 / 2), ({1}, 0::rat), ({2}, 1 / 2)] (fst ({1}, {2::nat})) = Some 0"
    by simp
  show ?thesis
    using h rule_generation_total
      [of "[({1::nat, 2}, 1 / 2), ({1}, 0), ({2}, 1 / 2)]" "1 / 2" "1 / 2" "({1}, {2})"]
    by blast
qed

lemma generated_rule_origin:
  assumes "generate_association_rules f mc = Inr rules" and "r \<in> set rules"
  obtains I sxy sp where "(I, sxy) \<in> set f" "2 \<le> card I" "sp \<in> set (splits I)"
    "rule_of f mc sxy sp = Inr (Some r)"
proof -
  from assms have "r \<in> set (concat (map (rules_for f mc) f))"
    unfolding generate_association_rules_eq by simp
  then obtain entry sp where e: "entry \<in> set f" "2 \<le> card (fst entry)"
    "sp \<in> set (splits (fst entry))" "rule_of f mc (snd entry) sp = Inr (Some r)"
    unfolding in_generated by blast
  show thesis
    by (rule that [of "fst entry" "snd entry" sp]) (use e in simp_all)
qed

text \<open>
  Claim C6. For every frequent-itemset mapping and every \<open>min_confidence\<close>, every emitted
  rule has a confidence of at least \<open>min_confidence\<close> and a lift of at least 0.
  A frequent-itemset mapping maps itemsets to supports, which are fractions of the
  transactions and so not negative; that is all the bound on the lift needs. The bound
  on the confidence holds for any mapping.
\<close>

theorem rule_confidence_and_lift_bounds:
  assumes "generate_association_rules f min_confidence = Inr rules"
    and "r \<in> set rules"
  shows "min_confidence \<le> confidence r
         \<and> ((\<forall>(I, s) \<in> set f. 0 \<le> s) \<longrightarrow> 0 \<le> lift r)"
proof -
  from assms obtain I sxy sp where o: "(I, sxy) \<in> set f"
    "rule_of f min_confidence sxy sp = Inr (Some r)"
    by (rule generated_rule_origin)
  from rule_of_SomeD [OF o(2)] obtain sx sy where
    conf: "min_confidence \<le> sxy / sx" and
    r: "r = \<lparr>antecedent = fst sp, consequent = snd sp, support = sxy,
              confidence = sxy / sx,
              lift = (if sx * sy > 0 then sxy / (sx * sy) else 0)\<rparr>"
    by blast
  have c: "confidence r = sxy / sx" and l: "lift r = (if sx * sy > 0 then sxy / (sx * sy) else 0)"
    unfolding r by simp_all
  have "0 \<le> lift r" if nonneg: "\<forall>(I, s) \<in> set f. 0 \<le> s"
  proof -
    from nonneg o(1) have "0 \<le> sxy" by blast
    then show ?thesis unfolding l by simp
  qed
  with conf c show ?thesis by simp
qed

theorem rule_confidence_and_lift_bounds_witness:
  "generate_association_rules [({1::nat, 2}, 1 / 2), ({1}, 3 / 4), ({2}, 3 / 4)] (1 / 2)
     = Inr [\<lparr>antecedent = {1}, consequent = {2}, support = 1 / 2, confidence = 2 / 3, lift = 8 / 9\<rparr>,
            \<lparr>antecedent = {2}, consequent = {1}, support = 1 / 2, confidence = 2 / 3, lift = 8 / 9\<rparr>]
   \<and> (0 :: rat) \<le> 1 / 2 \<and> (0 :: rat) \<le> 3 / 4
   \<and> (1 / 2 :: rat) \<le> confidence \<lparr>antecedent = {1::nat}, consequent = {2}, support = 1 / 2, confidence = 2 / 3, lift = 8 / 9\<rparr>
   \<and> (0 :: rat) \<le> lift \<lparr>antecedent = {1::nat}, consequent = {2}, support = 1 / 2, confidence = 2 / 3, lift = 8 / 9\<rparr>"
proof -
  have g: "generate_association_rules [({1::nat, 2}, 1 / 2), ({1}, 3 / 4), ({2}, 3 / 4)] (1 / 2)
     = Inr [\<lparr>antecedent = {1}, consequent = {2}, support = 1 / 2, confidence = 2 / 3, lift = 8 / 9\<rparr>,
            \<lparr>antecedent = {2}, consequent = {1}, support = 1 / 2, confidence = 2 / 3, lift = 8 / 9\<rparr>]"
    by code_simp
  have m: "\<lparr>antecedent = {1::nat}, consequent = {2}, support = 1 / 2, confidence = 2 / 3, lift = 8 / 9\<rparr>
     \<in> set [\<lparr>antecedent = {1}, consequent = {2}, support = 1 / 2, confidence = 2 / 3, lift = 8 / 9\<rparr>,
            \<lparr>antecedent = {2}, consequent = {1}, support = 1 / 2, confidence = 2 / 3, lift = 8 / 9\<rparr>]"
    by simp
  have n: "\<forall>(I, s) \<in> set [({1::nat, 2}, 1 / 2 :: rat), ({1}, 3 / 4), ({2}, 3 / 4)]. 0 \<le> s"
    by simp
  from rule_confidence_and_lift_bounds [OF g m] n
  have "(1 / 2 :: rat) \<le> confidence \<lparr>antecedent = {1::nat}, consequent = {2}, support = 1 / 2, confidence = 2 / 3, lift = 8 / 9\<rparr>"
    and "(0 :: rat) \<le> lift \<lparr>antecedent = {1::nat}, consequent = {2}, support = 1 / 2, confidence = 2 / 3, lift = 8 / 9\<rparr>"
    by blast+
  with g show ?thesis by simp
qed

text \<open>
  Claim C7. Every emitted rule has a non-empty antecedent and a non-empty consequent
  that are disjoint, and their union is a key of the input mapping with at least two
  items. For an itemset of \<open>k \<ge> 2\<close> items the loops visit every split into a non-empty
  antecedent and a non-empty consequent exactly once: \<open>2 ^ k - 2\<close> splits, the
  antecedents being all subsets of each size from 1 to \<open>k - 1\<close>. The emitted rules are
  exactly what the loop body produces on the splits of the keys with at least two items.
\<close>

theorem rules_split_frequent_itemsets:
  fixes f :: "(('a::linorder) set, rat) dict"
  assumes "generate_association_rules f mc = Inr rules"
  shows "(\<forall>r \<in> set rules.
            antecedent r \<noteq> {} \<and> consequent r \<noteq> {}
            \<and> antecedent r \<inter> consequent r = {}
            \<and> antecedent r \<union> consequent r \<in> fst ` set f
            \<and> 2 \<le> card (antecedent r \<union> consequent r))
         \<and> (\<forall>I :: 'a set. 2 \<le> card I \<longrightarrow>
               set (splits I) = {(A, I - A) | A. A \<subseteq> I \<and> A \<noteq> {} \<and> A \<noteq> I}
               \<and> distinct (map fst (splits I))
               \<and> length (splits I) = 2 ^ card I - 2
               \<and> (\<forall>n. 1 \<le> n \<and> n < card I \<longrightarrow>
                     {A. A \<subseteq> I \<and> card A = n} \<subseteq> fst ` set (splits I)))
         \<and> set rules =
               {r. \<exists>(I, supp_XY) \<in> set f. 2 \<le> card I
                     \<and> (\<exists>sp \<in> set (splits I). rule_of f mc supp_XY sp = Inr (Some r))}"
proof (intro conjI ballI allI impI)
  fix r assume r: "r \<in> set rules"
  from assms r obtain I sxy sp where o: "(I, sxy) \<in> set f" "2 \<le> card I"
    "sp \<in> set (splits I)" "rule_of f mc sxy sp = Inr (Some r)"
    by (rule generated_rule_origin)
  have fin: "finite I" using o(2) card_ge_0_finite by force
  from o(3) obtain A where A: "A \<subseteq> I" "A \<noteq> {}" "A \<noteq> I" "sp = (A, I - A)"
    unfolding in_splits [OF fin] by blast
  from rule_of_SomeD [OF o(4)] obtain sx sy where
    "r = \<lparr>antecedent = fst sp, consequent = snd sp, support = sxy,
              confidence = sxy / sx,
              lift = (if sx * sy > 0 then sxy / (sx * sy) else 0)\<rparr>"
    by blast
  then have ac: "antecedent r = A" "consequent r = I - A" using A(4) by simp_all
  have un: "antecedent r \<union> consequent r = I" unfolding ac using A(1) by blast
  show "antecedent r \<noteq> {}" unfolding ac by (rule A(2))
  show "consequent r \<noteq> {}" unfolding ac using A(1,3) by blast
  show "antecedent r \<inter> consequent r = {}" unfolding ac by blast
  show "antecedent r \<union> consequent r \<in> fst ` set f" unfolding un using o(1) by force
  show "2 \<le> card (antecedent r \<union> consequent r)" unfolding un by (rule o(2))
next
  fix I :: "'a set" assume k: "2 \<le> card I"
  have fin: "finite I" using k card_ge_0_finite by force
  have k1: "1 \<le> card I" using k by simp
  show "set (splits I) = {(A, I - A) | A. A \<subseteq> I \<and> A \<noteq> {} \<and> A \<noteq> I}"
    using in_splits [OF fin] by blast
  show "distinct (map fst (splits I))" using k1 by (rule distinct_fst_splits)
  show "length (splits I) = 2 ^ card I - 2" using length_splits [OF k1] by simp
  fix n assume n: "1 \<le> n \<and> n < card I"
  show "{A. A \<subseteq> I \<and> card A = n} \<subseteq> fst ` set (splits I)"
  proof
    fix A assume "A \<in> {A. A \<subseteq> I \<and> card A = n}"
    then have A: "A \<subseteq> I" "card A = n" by simp_all
    have "A \<noteq> {}" using A(2) n by auto
    moreover have "A \<noteq> I" using A(2) n by auto
    ultimately show "A \<in> fst ` set (splits I)"
      unfolding set_fst_splits [OF fin] using A(1) by blast
  qed
next
  show "set rules =
               {r. \<exists>(I, supp_XY) \<in> set f. 2 \<le> card I
                     \<and> (\<exists>sp \<in> set (splits I). rule_of f mc supp_XY sp = Inr (Some r))}"
  proof (rule set_eqI)
    fix r
    have "rules = concat (map (rules_for f mc) f)"
      using assms unfolding generate_association_rules_eq by simp
    then have "r \<in> set rules \<longleftrightarrow> (\<exists>entry \<in> set f. 2 \<le> card (fst entry) \<and>
      (\<exists>sp \<in> set (splits (fst entry)). rule_of f mc (snd entry) sp = Inr (Some r)))"
      using in_generated [of r f mc] by simp
    also have "\<dots> \<longleftrightarrow> (\<exists>(I, supp_XY) \<in> set f. 2 \<le> card I
                     \<and> (\<exists>sp \<in> set (splits I). rule_of f mc supp_XY sp = Inr (Some r)))"
      by (simp add: case_prod_beta)
    finally show "r \<in> set rules \<longleftrightarrow> r \<in> {r. \<exists>(I, supp_XY) \<in> set f. 2 \<le> card I
                     \<and> (\<exists>sp \<in> set (splits I). rule_of f mc supp_XY sp = Inr (Some r))}"
      by simp
  qed
qed


theorem rules_split_frequent_itemsets_witness:
  "generate_association_rules [({1::nat, 2}, 1 / 2), ({1}, 3 / 4), ({2}, 3 / 4)] (1 / 2)
     = Inr [\<lparr>antecedent = {1}, consequent = {2}, support = 1 / 2, confidence = 2 / 3, lift = 8 / 9\<rparr>,
            \<lparr>antecedent = {2}, consequent = {1}, support = 1 / 2, confidence = 2 / 3, lift = 8 / 9\<rparr>]
   \<and> 2 \<le> card {1::nat, 2} \<and> 1 \<le> (1::nat) \<and> 1 < card {1::nat, 2}
   \<and> antecedent \<lparr>antecedent = {1::nat}, consequent = {2}, support = 1 / 2 :: rat, confidence = 2 / 3 :: rat, lift = 8 / 9 :: rat\<rparr>
       \<union> consequent \<lparr>antecedent = {1::nat}, consequent = {2}, support = 1 / 2 :: rat, confidence = 2 / 3 :: rat, lift = 8 / 9 :: rat\<rparr>
       \<in> fst ` set [({1::nat, 2}, 1 / 2 :: rat), ({1}, 3 / 4), ({2}, 3 / 4)]
   \<and> length (splits {1::nat, 2}) = 2 ^ card {1::nat, 2} - 2
   \<and> {A. A \<subseteq> {1::nat, 2} \<and> card A = 1} \<subseteq> fst ` set (splits {1::nat, 2})"
proof -
  let ?f = "[({1::nat, 2}, 1 / 2 :: rat), ({1}, 3 / 4), ({2}, 3 / 4)]"
  let ?r = "\<lparr>antecedent = {1::nat}, consequent = {2}, support = 1 / 2 :: rat, confidence = 2 / 3 :: rat, lift = 8 / 9 :: rat\<rparr>"
  let ?r' = "\<lparr>antecedent = {2::nat}, consequent = {1}, support = 1 / 2 :: rat, confidence = 2 / 3 :: rat, lift = 8 / 9 :: rat\<rparr>"
  have g: "generate_association_rules ?f (1 / 2) = Inr [?r, ?r']"
    by code_simp
  have m: "?r \<in> set [?r, ?r']" by simp
  have k: "2 \<le> card {1::nat, 2}" by simp
  have n: "1 \<le> (1::nat) \<and> 1 < card {1::nat, 2}" by simp
  note t = rules_split_frequent_itemsets [OF g]
  note t1 = t [THEN conjunct1, rule_format, OF m]
  note t2 = t [THEN conjunct2, THEN conjunct1, rule_format, OF k]
  have c1: "antecedent ?r \<union> consequent ?r \<in> fst ` set ?f"
    using t1 by (elim conjE)
  have c2: "length (splits {1::nat, 2}) = 2 ^ card {1::nat, 2} - 2"
    using t2 by (elim conjE)
  have c3: "{A. A \<subseteq> {1::nat, 2} \<and> card A = 1} \<subseteq> fst ` set (splits {1::nat, 2})"
    using t2 [THEN conjunct2, THEN conjunct2, THEN conjunct2, rule_format, OF n] .
  show ?thesis
    by (intro conjI g k c1 c2 c3) simp_all
qed

text \<open>
  Claim C8. A split whose antecedent or consequent is not a key of the input mapping is
  skipped: no rule is emitted for it and nothing is raised. When the product of the
  supports of antecedent and consequent is 0, the lift of the emitted rule is 0 and no
  division fault is raised. Both hold for the loop body on any split, and so for every
  rule of the generator's result.
\<close>

theorem missing_subset_skipped_and_zero_lift:
  "(\<exists>ro. rule_of f mc supp_XY sp = Inr ro)
   \<and> (map_of f (fst sp) = None \<or> map_of f (snd sp) = None \<longrightarrow> rule_of f mc supp_XY sp = Inr None)
   \<and> (\<forall>r supp_X supp_Y. rule_of f mc supp_XY sp = Inr (Some r)
          \<and> map_of f (fst sp) = Some supp_X \<and> map_of f (snd sp) = Some supp_Y
          \<and> supp_X * supp_Y = 0 \<longrightarrow> lift r = 0)
   \<and> (\<exists>rules. generate_association_rules f mc = Inr rules
          \<and> (\<forall>r \<in> set rules. \<exists>supp_X supp_Y.
                 map_of f (antecedent r) = Some supp_X \<and> map_of f (consequent r) = Some supp_Y
                 \<and> (supp_X * supp_Y = 0 \<longrightarrow> lift r = 0)))"
proof (intro conjI allI impI)
  show "\<exists>ro. rule_of f mc supp_XY sp = Inr ro"
    unfolding rule_of_Inr by blast
next
  assume "map_of f (fst sp) = None \<or> map_of f (snd sp) = None"
  then show "rule_of f mc supp_XY sp = Inr None"
    by (auto simp: rule_of_def split: option.splits)
next
  fix r supp_X supp_Y
  assume a: "rule_of f mc supp_XY sp = Inr (Some r)
          \<and> map_of f (fst sp) = Some supp_X \<and> map_of f (snd sp) = Some supp_Y
          \<and> supp_X * supp_Y = 0"
  then have ro: "rule_of f mc supp_XY sp = Inr (Some r)" by blast
  from rule_of_SomeD [OF ro] obtain sx sy where
    s: "map_of f (fst sp) = Some sx" "map_of f (snd sp) = Some sy" and
    r: "r = \<lparr>antecedent = fst sp, consequent = snd sp, support = supp_XY,
              confidence = supp_XY / sx,
              lift = (if sx * sy > 0 then supp_XY / (sx * sy) else 0)\<rparr>"
    by blast
  from a s have "sx * sy = 0" by simp
  then show "lift r = 0" unfolding r by simp
next
  show "\<exists>rules. generate_association_rules f mc = Inr rules
          \<and> (\<forall>r \<in> set rules. \<exists>supp_X supp_Y.
                 map_of f (antecedent r) = Some supp_X \<and> map_of f (consequent r) = Some supp_Y
                 \<and> (supp_X * supp_Y = 0 \<longrightarrow> lift r = 0))"
  proof -
    have g: "generate_association_rules f mc = Inr (concat (map (rules_for f mc) f))"
      by (rule generate_association_rules_eq)
    have "\<exists>supp_X supp_Y.
                 map_of f (antecedent r) = Some supp_X \<and> map_of f (consequent r) = Some supp_Y
                 \<and> (supp_X * supp_Y = 0 \<longrightarrow> lift r = 0)"
      if "r \<in> set (concat (map (rules_for f mc) f))" for r
    proof -
      from g that obtain I sxy sp' where o: "rule_of f mc sxy sp' = Inr (Some r)"
        by (rule generated_rule_origin)
      from rule_of_SomeD [OF o] obtain sx sy where
        s: "map_of f (fst sp') = Some sx" "map_of f (snd sp') = Some sy" and
        r: "r = \<lparr>antecedent = fst sp', consequent = snd sp', support = sxy,
                confidence = sxy / sx,
                lift = (if sx * sy > 0 then sxy / (sx * sy) else 0)\<rparr>"
        by blast
      have "map_of f (antecedent r) = Some sx" "map_of f (consequent r) = Some sy"
        unfolding r using s by simp_all
      moreover have "sx * sy = 0 \<longrightarrow> lift r = 0" unfolding r by simp
      ultimately show ?thesis by blast
    qed
    with g show ?thesis by blast
  qed
qed

theorem missing_subset_skipped_and_zero_lift_witness:
  "(map_of [({1::nat, 2}, 1 / 2 :: rat), ({2}, 0)] (fst ({1::nat}, {2::nat})) = None
      \<or> map_of [({1::nat, 2}, 1 / 2 :: rat), ({2}, 0)] (snd ({1::nat}, {2::nat})) = None)
   \<and> rule_of [({1::nat, 2}, 1 / 2), ({2}, 0)] (1 / 2) (1 / 2) ({1}, {2}) = Inr None
   \<and> rule_of [({1::nat, 2}, 1 / 2), ({1}, 1 / 2), ({2}, 0)] (1 / 2) (1 / 2) ({1}, {2})
       = Inr (Some \<lparr>antecedent = {1}, consequent = {2}, support = 1 / 2, confidence = 1, lift = 0\<rparr>)
   \<and> map_of [({1::nat, 2}, 1 / 2 :: rat), ({1}, 1 / 2), ({2}, 0)] (fst ({1::nat}, {2::nat})) = Some (1 / 2)
   \<and> map_of [({1::nat, 2}, 1 / 2 :: rat), ({1}, 1 / 2), ({2}, 0)] (snd ({1::nat}, {2::nat})) = Some 0
   \<and> (1 / 2 :: rat) * 0 = 0
   \<and> lift \<lparr>antecedent = {1::nat}, consequent = {2}, support = 1 / 2 :: rat, confidence = 1 :: rat, lift = 0 :: rat\<rparr> = 0
   \<and> generate_association_rules [({1::nat, 2}, 1 / 2), ({1}, 1 / 2), ({2}, 0)] (1 / 2)
       = Inr [\<lparr>antecedent = {1}, consequent = {2}, support = 1 / 2, confidence = 1, lift = 0\<rparr>]"
proof -
  let ?f = "[({1::nat, 2}, 1 / 2 :: rat), ({2}, 0)]"
  let ?g = "[({1::nat, 2}, 1 / 2 :: rat), ({1}, 1 / 2), ({2}, 0)]"
  let ?r = "\<lparr>antecedent = {1::nat}, consequent = {2}, support = 1 / 2 :: rat, confidence = 1 :: rat, lift = 0 :: rat\<rparr>"
  have h1: "map_of ?f (fst ({1::nat}, {2::nat})) = None \<or> map_of ?f (snd ({1::nat}, {2::nat})) = None"
    by simp
  have h2: "rule_of ?g (1 / 2) (1 / 2) ({1}, {2}) = Inr (Some ?r)"
    by code_simp
  have h3: "map_of ?g (fst ({1::nat}, {2::nat})) = Some (1 / 2)" by simp
  have h4: "map_of ?g (snd ({1::nat}, {2::nat})) = Some 0" by simp
  have h5: "(1 / 2 :: rat) * 0 = 0" by simp
  have h6: "generate_association_rules ?g (1 / 2) = Inr [?r]" by code_simp
  note t = missing_subset_skipped_and_zero_lift [of ?f "1 / 2" "1 / 2" "({1}, {2})"]
  have c1: "rule_of ?f (1 / 2) (1 / 2) ({1}, {2}) = Inr None"
    using t [THEN conjunct2, THEN conjunct1, rule_format, OF h1] .
  note u = missing_subset_skipped_and_zero_lift [of ?g "1 / 2" "1 / 2" "({1}, {2})"]
  have c2: "lift ?r = 0"
    by (rule u [THEN conjunct2, THEN conjunct2, THEN conjunct1, rule_format, of ?r "1 / 2" 0])
       (rule conjI, rule h2, rule conjI, rule h3, rule conjI, rule h4, rule h5)
  show ?thesis
    by (intro conjI h1 c1 h2 h3 h4 h5 c2 h6)
qed

section \<open>Empty input\<close>

text \<open>
  Claim C9. For an empty transaction list and any \<open>min_support\<close>, both miners return
  the empty mapping and raise nothing, and the rule generator run on that empty mapping
  returns the empty list of rules, for any \<open>min_confidence\<close>.
\<close>

theorem empty_input_no_failure:
  "apriori ([] :: ('a::linorder) set list) min_support = Inr []
   \<and> eclat ([] :: 'a set list) min_support = Inr []
   \<and> generate_association_rules ([] :: ('a set, rat) dict) min_confidence = Inr []"
  by (simp add: apriori_def eclat_def generate_association_rules_def)

end
